theory Spec2Isabelle
  imports Complex_Main "HOL-Library.Multiset"
begin

section \<open>Event bus (src/js/event\_bus.js)\<close>

text \<open>
  A callback is a JavaScript function object; \<open>indexOf\<close> compares callbacks by identity.
  \<open>Fn f\<close> is the function a subscriber wrote, identified by the number \<open>f\<close>.
  \<open>Wrapped i ev f\<close> is the closure \<open>wrappedCallback\<close> that \<open>once\<close> creates: \<open>i\<close> is its
  identity (every call of \<open>once\<close> creates a new closure), \<open>ev\<close> and \<open>f\<close> are the event name
  and the callback it captured.

  What a subscriber's function does when it is called is a list of commands on the bus
  (\<open>program\<close> gives the body of every function): it may subscribe, unsubscribe and
  subscribe once, and it may throw, which ends the body.
\<close>

type_synonym topic = string
type_synonym payload = nat

datatype callback = Fn nat | Wrapped nat topic nat

datatype cmd = CmdOn topic nat | CmdOff topic nat | CmdOnce topic nat | CmdThrow

type_synonym program = "nat \<Rightarrow> cmd list"

record bus =
  events :: "topic \<rightharpoonup> callback list"
  nextClosure :: nat
  calls :: "(nat \<times> payload) list"
  errors :: "topic list"

definition EventBus :: bus where
  "EventBus = \<lparr>events = Map.empty, nextClosure = 0, calls = [], errors = []\<rparr>"

text \<open>\<open>Array.prototype.indexOf\<close>: the first index of the element, \<open>-1\<close> when absent.\<close>

fun indexOf :: "'a list \<Rightarrow> 'a \<Rightarrow> int" where
  "indexOf [] c = -1"
| "indexOf (x # xs) c =
     (if x = c then 0 else (let i = indexOf xs c in if i = -1 then -1 else i + 1))"

text \<open>\<open>splice(index, 1)\<close>: removes the element at \<open>index\<close>, the later ones move down.\<close>

definition splice1 :: "'a list \<Rightarrow> nat \<Rightarrow> 'a list" where
  "splice1 xs i = take i xs @ drop (Suc i) xs"

definition on :: "topic \<Rightarrow> callback \<Rightarrow> bus \<Rightarrow> bus" where
  "on ev cb b =
     (let arr = (case events b ev of None \<Rightarrow> [] | Some l \<Rightarrow> l)
      in b\<lparr>events := (events b)(ev \<mapsto> arr @ [cb])\<rparr>)"

definition off :: "topic \<Rightarrow> callback \<Rightarrow> bus \<Rightarrow> bus" where
  "off ev cb b =
     (case events b ev of
        None \<Rightarrow> b
      | Some arr \<Rightarrow>
          (let index = indexOf arr cb
           in if index > -1 then b\<lparr>events := (events b)(ev \<mapsto> splice1 arr (nat index))\<rparr>
              else b))"

definition once :: "topic \<Rightarrow> nat \<Rightarrow> bus \<Rightarrow> bus" where
  "once ev f b =
     on ev (Wrapped (nextClosure b) ev f) (b\<lparr>nextClosure := Suc (nextClosure b)\<rparr>)"

definition clear :: "bus \<Rightarrow> bus" where
  "clear b = b\<lparr>events := Map.empty\<rparr>"

text \<open>
  Running the body of a subscriber's function: the result is the bus after it and
  whether it threw.
\<close>

fun exec :: "cmd list \<Rightarrow> bus \<Rightarrow> bus \<times> bool" where
  "exec [] b = (b, False)"
| "exec (CmdThrow # cs) b = (b, True)"
| "exec (CmdOn ev f # cs) b = exec cs (on ev (Fn f) b)"
| "exec (CmdOff ev f # cs) b = exec cs (off ev (Fn f) b)"
| "exec (CmdOnce ev f # cs) b = exec cs (once ev f b)"

text \<open>
  Calling a callback with the data. The closure of \<open>once\<close> is
  \<^verbatim>\<open>function(data) { callback(data); self.off(event, wrappedCallback); }\<close>:
  when \<open>callback(data)\<close> throws, the exception leaves the closure before \<open>off\<close> runs.
\<close>

fun call :: "program \<Rightarrow> callback \<Rightarrow> payload \<Rightarrow> bus \<Rightarrow> bus \<times> bool" where
  "call P (Fn f) d b = exec (P f) (b\<lparr>calls := calls b @ [(f, d)]\<rparr>)"
| "call P (Wrapped i ev f) d b =
     (case exec (P f) (b\<lparr>calls := calls b @ [(f, d)]\<rparr>) of
        (b', True) \<Rightarrow> (b', True)
      | (b', False) \<Rightarrow> (off ev (Wrapped i ev f) b', False))"

text \<open>The body of the \<open>forEach\<close> in \<open>emit\<close>: \<open>try { callback(data) } catch (e) { console.error(...) }\<close>.\<close>

definition invoke :: "program \<Rightarrow> topic \<Rightarrow> payload \<Rightarrow> callback \<Rightarrow> bus \<Rightarrow> bus" where
  "invoke P ev d cb b =
     (case call P cb d b of
        (b', True) \<Rightarrow> b'\<lparr>errors := errors b' @ [ev]\<rparr>
      | (b', False) \<Rightarrow> b')"

text \<open>
  \<open>Array.prototype.forEach\<close> on the array \<open>this.events[event]\<close> itself, not on a copy:
  the length is read once, before the first call; then for every index \<open>k\<close> below that
  length, in order, the callback now stored at index \<open>k\<close> is called, when the array
  still has an index \<open>k\<close>. \<open>on\<close> and \<open>off\<close> change that same array in place.
\<close>

function forEach :: "program \<Rightarrow> topic \<Rightarrow> payload \<Rightarrow> nat \<Rightarrow> nat \<Rightarrow> bus \<Rightarrow> bus" where
  "forEach P ev d k len b =
     (if k < len then
        (case events b ev of
           None \<Rightarrow> forEach P ev d (Suc k) len b
         | Some arr \<Rightarrow>
             if k < length arr then forEach P ev d (Suc k) len (invoke P ev d (arr ! k) b)
             else forEach P ev d (Suc k) len b)
      else b)"
  by pat_completeness auto
termination
  by (relation "measure (\<lambda>(P, ev, d, k, len, b). len - k)") auto

definition emit :: "program \<Rightarrow> topic \<Rightarrow> payload \<Rightarrow> bus \<Rightarrow> bus" where
  "emit P ev d b =
     (case events b ev of
        None \<Rightarrow> b
      | Some arr \<Rightarrow> forEach P ev d 0 (length arr) b)"

text \<open>The functions called by a publish, in the order of the calls.\<close>

definition invoked :: "program \<Rightarrow> topic \<Rightarrow> payload \<Rightarrow> bus \<Rightarrow> nat list" where
  "invoked P ev d b = map fst (drop (length (calls b)) (calls (emit P ev d b)))"

text \<open>The functions subscribed to a topic, in subscription order.\<close>

fun fn_of :: "callback \<Rightarrow> nat" where
  "fn_of (Fn f) = f"
| "fn_of (Wrapped i ev f) = f"

definition subscribed :: "topic \<Rightarrow> bus \<Rightarrow> nat list" where
  "subscribed ev b = (case events b ev of None \<Rightarrow> [] | Some arr \<Rightarrow> map fn_of arr)"

subsection \<open>Two subscribers, the first of which unsubscribes itself\<close>

definition prog_unsub :: program where
  "prog_unsub f = (if f = 0 then [CmdOff ''t'' 0] else [])"

definition bus_two :: bus where
  "bus_two = on ''t'' (Fn 1) (on ''t'' (Fn 0) EventBus)"

subsection \<open>A once-subscriber that throws\<close>

definition prog_throw :: program where
  "prog_throw f = (if f = 0 then [CmdThrow] else [])"

definition bus_once :: bus where
  "bus_once = once ''t'' 0 EventBus"

section \<open>Progress model (VisualEffectsManager.prototype.setGameProgress)\<close>





section \<open>Particle set (VisualEffectsManager)\<close>

text \<open>
  Only the length of \<open>this.particles\<close> decides how many particles a burst adds. The
  particles themselves (position, velocity, size, hue, drawn from \<open>Math.random\<close>) are
  values of a type \<open>'p\<close>, and \<open>mk i\<close> is the particle the \<open>i\<close>-th iteration of a burst
  creates. A loop \<^verbatim>\<open>for (i = 0; i < n; i++)\<close> runs for every natural number below \<open>n\<close>,
  that is \<open>nat \<lceil>n\<rceil>\<close> times.
\<close>

record 'p vfx =
  particles :: "'p list"
  maxParticles :: int
  baseParticles :: nat
  progressFactor :: real

definition pushLoop :: "real \<Rightarrow> (nat \<Rightarrow> 'p) \<Rightarrow> 'p vfx \<Rightarrow> 'p vfx" where
  "pushLoop n mk v = v\<lparr>particles := particles v @ map mk [0..<nat \<lceil>n\<rceil>]\<rparr>"

text \<open>The constructor: an empty list, then \<open>baseParticles\<close> ambient particles.\<close>

definition VisualEffectsManager :: "(nat \<Rightarrow> 'p) \<Rightarrow> 'p vfx" where
  "VisualEffectsManager mk =
     pushLoop 150 mk \<lparr>particles = [], maxParticles = 300, baseParticles = 150,
                      progressFactor = 0\<rparr>"

definition availableSlots :: "'p vfx \<Rightarrow> int" where
  "availableSlots v = maxParticles v - int (length (particles v))"

definition triggerMilestone :: "nat \<Rightarrow> (nat \<Rightarrow> 'p) \<Rightarrow> 'p vfx \<Rightarrow> 'p vfx" where
  "triggerMilestone val mk v =
     (let numParticles = min 20 (10 + int (val div 64));
          numParticles = min numParticles (availableSlots v)
      in pushLoop (real_of_int numParticles) mk v)"

text \<open>One of the three timers of \<open>triggerVictory\<close> that spawn a celebration wave.\<close>

definition victoryWave :: "(nat \<Rightarrow> 'p) \<Rightarrow> 'p vfx \<Rightarrow> 'p vfx" where
  "victoryWave mk v =
     (let particlesPerWave = 50;
          particlesToAdd = min particlesPerWave (availableSlots v)
      in pushLoop (real_of_int particlesToAdd) mk v)"

text \<open>The timer of \<open>triggerVictory\<close> set to 600 ms: the mist, \<^verbatim>\<open>for (var i = 0; i < 30; i++)\<close>.\<close>

definition victoryMist :: "(nat \<Rightarrow> 'p) \<Rightarrow> 'p vfx \<Rightarrow> 'p vfx" where
  "victoryMist mk v = pushLoop 30 mk v"

text \<open>
  The timers of one \<open>triggerVictory\<close> in the order they fire (0, 200, 400 and 600 ms).
\<close>

definition triggerVictory_timers :: "(nat \<Rightarrow> 'p) \<Rightarrow> 'p vfx \<Rightarrow> 'p vfx" where
  "triggerVictory_timers mk v = victoryMist mk (victoryWave mk (victoryWave mk (victoryWave mk v)))"

text \<open>One of the five timers of \<open>triggerGameOver\<close>.\<close>

definition gameOverWave :: "(nat \<Rightarrow> 'p) \<Rightarrow> 'p vfx \<Rightarrow> 'p vfx" where
  "gameOverWave mk v =
     (let particlesPerWave = 80;
          particlesToAdd = min particlesPerWave (availableSlots v)
      in pushLoop (real_of_int particlesToAdd) mk v)"

definition triggerMerge :: "nat \<Rightarrow> (nat \<Rightarrow> 'p) \<Rightarrow> 'p vfx \<Rightarrow> 'p vfx" where
  "triggerMerge val mk v =
     (let valCapped = min (real val) 2048;
          normalizedVal = max ((ln valCapped / ln 2) / 11) 0.1;
          baseParticles = 8;
          scaledParticles =
            real_of_int \<lfloor>12 * normalizedVal * (0.5 + progressFactor v * 0.5)\<rfloor>;
          numExplosionParticles = baseParticles + scaledParticles;
          numExplosionParticles =
            (if val \<ge> 512 \<and> progressFactor v > 0.6 then numExplosionParticles * 1.5
             else numExplosionParticles);
          particlesToAdd = min numExplosionParticles (real_of_int (availableSlots v))
      in pushLoop particlesToAdd mk v)"

text \<open>\<open>resetEffects\<close>: pop down to the base amount, then push up to it.\<close>

definition resetEffects :: "(nat \<Rightarrow> 'p) \<Rightarrow> 'p vfx \<Rightarrow> 'p vfx" where
  "resetEffects mk v =
     (let ps = take (baseParticles v) (particles v)
      in v\<lparr>particles := ps @ map mk [0..<baseParticles v - length ps], progressFactor := 0\<rparr>)"



section \<open>Tiles and grid\<close>

text \<open>
  The classes \<open>Tile\<close>, \<open>Grid\<close> and \<open>LocalStorageManager\<close> are used by
  src/js/game\_manager.js and are not among the sources. Their definitions below follow
  the data model of the specification.
\<close>

type_synonym cell = "int \<times> int"

text \<open>Modelled from the spec: the class \<open>Tile\<close> is missing; a tile has a position, a
  value, a previous position and a merge-source pair (the two tiles that produced it).\<close>

datatype tile =
  Tile (tile_x: int) (tile_y: int) (tile_value: nat)
       (previousPosition: "cell option") (mergedFrom: "(tile \<times> tile) option")

text \<open>Modelled from the spec: the constructor of \<open>Tile\<close> (position and value; no
  previous position, no merge-source pair).\<close>

definition new_Tile :: "cell \<Rightarrow> nat \<Rightarrow> tile" where
  "new_Tile position v = Tile (fst position) (snd position) v None None"

text \<open>Modelled from the spec: \<open>Tile.savePosition\<close> records the current position as the
  previous position (for animation).\<close>

definition savePosition :: "tile \<Rightarrow> tile" where
  "savePosition t =
     Tile (tile_x t) (tile_y t) (tile_value t) (Some (tile_x t, tile_y t)) (mergedFrom t)"

text \<open>Modelled from the spec: \<open>Tile.updatePosition\<close> sets the current position.\<close>

definition updatePosition :: "tile \<Rightarrow> cell \<Rightarrow> tile" where
  "updatePosition t position =
     Tile (fst position) (snd position) (tile_value t) (previousPosition t) (mergedFrom t)"

text \<open>The assignment \<open>tile.mergedFrom = v\<close>.\<close>

definition set_mergedFrom :: "tile \<Rightarrow> (tile \<times> tile) option \<Rightarrow> tile" where
  "set_mergedFrom t v = Tile (tile_x t) (tile_y t) (tile_value t) (previousPosition t) v"

text \<open>Modelled from the spec: the class \<open>Grid\<close> is missing; a grid has a size N and owns an
  N x N array of optional tiles, \<open>cells[x][y]\<close>.\<close>

record grid =
  gsize :: nat
  cells :: "tile option list list"

text \<open>Modelled from the spec: \<open>Grid.withinBounds\<close>, cell coordinates lie in \<open>[0, N)\<close>.\<close>

definition withinBounds :: "grid \<Rightarrow> cell \<Rightarrow> bool" where
  "withinBounds g position =
     (fst position \<ge> 0 \<and> fst position < int (gsize g) \<and>
      snd position \<ge> 0 \<and> snd position < int (gsize g))"

text \<open>Modelled from the spec: \<open>Grid.cellContent\<close>, the tile of a cell within bounds,
  \<open>null\<close> otherwise.\<close>

definition cellContent :: "grid \<Rightarrow> cell \<Rightarrow> tile option" where
  "cellContent g c =
     (if withinBounds g c then cells g ! nat (fst c) ! nat (snd c) else None)"

text \<open>Modelled from the spec: \<open>Grid.cellOccupied\<close>, whether the cell holds a tile.\<close>

definition cellOccupied :: "grid \<Rightarrow> cell \<Rightarrow> bool" where
  "cellOccupied g c = (cellContent g c \<noteq> None)"

text \<open>Modelled from the spec: \<open>Grid.cellAvailable\<close>, whether the cell is empty.\<close>

definition cellAvailable :: "grid \<Rightarrow> cell \<Rightarrow> bool" where
  "cellAvailable g c = (\<not> cellOccupied g c)"

text \<open>
  The assignment \<open>cells[x][y] = v\<close>, as in \<open>moveTile\<close>, for a cell within bounds. (Outside
  the bounds JavaScript throws or extends the row; on a grid that satisfies \<open>wf_grid\<close>
  below, every cell \<open>move\<close> writes lies within bounds.)
\<close>

definition setCell :: "grid \<Rightarrow> cell \<Rightarrow> tile option \<Rightarrow> grid" where
  "setCell g c v =
     g\<lparr>cells := (cells g)[nat (fst c) := (cells g ! nat (fst c))[nat (snd c) := v]]\<rparr>"

text \<open>Modelled from the spec: \<open>Grid.insertTile\<close> writes the tile into the cell at the tile's
  position.\<close>

definition insertTile :: "grid \<Rightarrow> tile \<Rightarrow> grid" where
  "insertTile g t = setCell g (tile_x t, tile_y t) (Some t)"

text \<open>Modelled from the spec: \<open>Grid.removeTile\<close> writes \<open>null\<close> into the cell at the tile's
  position.\<close>

definition removeTile :: "grid \<Rightarrow> tile \<Rightarrow> grid" where
  "removeTile g t = setCell g (tile_x t, tile_y t) None"

text \<open>Modelled from the spec: the cells in the order of \<open>Grid.eachCell\<close>, column by
  column (\<open>x\<close> outside, \<open>y\<close> inside).\<close>

definition eachCell :: "grid \<Rightarrow> cell list" where
  "eachCell g = List.product (map int [0..<gsize g]) (map int [0..<gsize g])"

text \<open>Modelled from the spec: \<open>Grid.availableCells\<close>, the empty cells.\<close>

definition availableCells :: "grid \<Rightarrow> cell list" where
  "availableCells g = filter (\<lambda>c. cellContent g c = None) (eachCell g)"

text \<open>Modelled from the spec: \<open>Grid.cellsAvailable\<close>, whether there is an empty cell.\<close>

definition cellsAvailable :: "grid \<Rightarrow> bool" where
  "cellsAvailable g = (availableCells g \<noteq> [])"

text \<open>Modelled from the spec: \<open>Grid.randomAvailableCell\<close>, a uniformly random empty cell;
  \<open>r\<close> is the value of \<open>Math.random()\<close>, in \<open>[0, 1)\<close>.\<close>

definition randomAvailableCell :: "real \<Rightarrow> grid \<Rightarrow> cell" where
  "randomAvailableCell r g =
     (let cs = availableCells g in cs ! nat \<lfloor>r * real (length cs)\<rfloor>)"

text \<open>Modelled from the spec: \<open>Grid.serialize\<close>, the size and, for every cell, the
  position and the value of its tile.\<close>

definition serialize_grid :: "grid \<Rightarrow> nat \<times> (cell \<times> nat) option list list" where
  "serialize_grid g =
     (gsize g, map (map (map_option (\<lambda>t. ((tile_x t, tile_y t), tile_value t)))) (cells g))"

text \<open>The number of tiles on the grid.\<close>

definition tileCount :: "grid \<Rightarrow> nat" where
  "tileCount g = length (filter (\<lambda>c. cellContent g c \<noteq> None) (eachCell g))"

section \<open>Game manager (src/js/game\_manager.js)\<close>

datatype direction = DirUp | DirRight | DirDown | DirLeft

datatype event =
    GameMove direction
  | GameMerge nat
  | GameMilestone nat
  | GameWon
  | GameOver
  | GameProgression nat nat nat

record snapshot =
  snap_grid :: "nat \<times> (cell \<times> nat) option list list"
  snap_score :: nat
  snap_over :: bool
  snap_won :: bool
  snap_keepPlaying :: bool

text \<open>Modelled from the spec: the persistence collaborator holds one snapshot of the
  game, absent when cleared, and a separate best score.\<close>

record storageManager =
  bestScore :: nat
  gameState :: "snapshot option"

text \<open>
  The fields of \<open>GameManager\<close> the moves read and write. \<open>emitted\<close> lists the calls of
  \<open>eventBus.emit\<close> made by the game manager, in order; what the subscribers do with
  them is not part of the game manager.
\<close>

record game =
  size_of :: nat
  grid_of :: grid
  score :: nat
  over :: bool
  won :: bool
  keepPlaying :: bool
  storage :: storageManager
  emitted :: "event list"

definition emitEvent :: "event \<Rightarrow> game \<Rightarrow> game" where
  "emitEvent e s = s\<lparr>emitted := emitted s @ [e]\<rparr>"

definition keepPlayingHandler :: "game \<Rightarrow> game" where
  "keepPlayingHandler s = s\<lparr>keepPlaying := True\<rparr>"

definition isGameTerminated :: "game \<Rightarrow> bool" where
  "isGameTerminated s = (over s \<or> (won s \<and> \<not> keepPlaying s))"

text \<open>\<open>r1\<close> and \<open>r2\<close> are the two values of \<open>Math.random()\<close>: the first decides the
  value, the second the cell.\<close>

definition addRandomTile :: "real \<Rightarrow> real \<Rightarrow> game \<Rightarrow> game" where
  "addRandomTile r1 r2 s =
     (if cellsAvailable (grid_of s) then
        (let val = (if r1 < 0.9 then 2 else 4);
             tile = new_Tile (randomAvailableCell r2 (grid_of s)) val
         in s\<lparr>grid_of := insertTile (grid_of s) tile\<rparr>)
      else s)"

definition getTileSum :: "game \<Rightarrow> nat \<times> nat" where
  "getTileSum s =
     fold (\<lambda>c (sum, maxTile).
             case cellContent (grid_of s) c of
               None \<Rightarrow> (sum, maxTile)
             | Some tile \<Rightarrow>
                 (sum + tile_value tile,
                  if tile_value tile > maxTile then tile_value tile else maxTile))
          (eachCell (grid_of s)) (0, 0)"

definition serialize :: "game \<Rightarrow> snapshot" where
  "serialize s =
     \<lparr>snap_grid = serialize_grid (grid_of s), snap_score = score s, snap_over = over s,
      snap_won = won s, snap_keepPlaying = keepPlaying s\<rparr>"

text \<open>
  \<open>actuate\<close>: the best score, the persisted snapshot (cleared when the game is over) and
  the progression event. The calls of \<open>visualEffects.setGameProgress\<close> and of the
  actuator that draws the board leave the game manager's state as it is.
\<close>

definition actuate :: "game \<Rightarrow> game" where
  "actuate s =
     (let st = storage s;
          st = (if bestScore st < score s then st\<lparr>bestScore := score s\<rparr> else st);
          st = (if over s then st\<lparr>gameState := None\<rparr>
                else st\<lparr>gameState := Some (serialize s)\<rparr>);
          boardState = getTileSum s
      in emitEvent (GameProgression (fst boardState) (snd boardState) (score s))
           (s\<lparr>storage := st\<rparr>))"


definition prepareTiles :: "grid \<Rightarrow> grid" where
  "prepareTiles g =
     g\<lparr>cells := map (map (map_option (\<lambda>tile. savePosition (set_mergedFrom tile None))))
                    (cells g)\<rparr>"

definition moveTile :: "grid \<Rightarrow> tile \<Rightarrow> cell \<Rightarrow> grid" where
  "moveTile g tile c =
     setCell (setCell g (tile_x tile, tile_y tile) None) c (Some (updatePosition tile c))"

fun getVector :: "direction \<Rightarrow> cell" where
  "getVector DirUp = (0, -1)"
| "getVector DirRight = (1, 0)"
| "getVector DirDown = (0, 1)"
| "getVector DirLeft = (-1, 0)"

definition buildTraversals :: "nat \<Rightarrow> cell \<Rightarrow> int list \<times> int list" where
  "buildTraversals n vector =
     (let xs = map int [0..<n]; ys = map int [0..<n]
      in (if fst vector = 1 then rev xs else xs, if snd vector = 1 then rev ys else ys))"

text \<open>
  \<open>findFarthestPosition\<close>: the loop steps from the cell along the vector while the next
  cell is within bounds and available. The result is the pair of \<open>farthest\<close> and
  \<open>next\<close>. \<open>move\<close> always passes the vector \<open>getVector direction\<close>, so the function takes the
  direction and reads the vector from it: with one of these four vectors the loop
  leaves the grid after at most N steps.
\<close>

function findFarthestPosition :: "grid \<Rightarrow> cell \<Rightarrow> direction \<Rightarrow> cell \<times> cell" where
  "findFarthestPosition g previous d =
     (let c = (fst previous + fst (getVector d), snd previous + snd (getVector d))
      in if withinBounds g c \<and> cellAvailable g c then findFarthestPosition g c d
         else (previous, c))"
  by pat_completeness auto
termination
  by (relation "measure (\<lambda>(g, p, d).
        case d of DirUp \<Rightarrow> nat (snd p + 1) | DirDown \<Rightarrow> nat (int (gsize g) - snd p)
                | DirLeft \<Rightarrow> nat (fst p + 1) | DirRight \<Rightarrow> nat (int (gsize g) - fst p))")
     (auto simp: withinBounds_def split: direction.splits)

definition positionsEqual :: "cell \<Rightarrow> cell \<Rightarrow> bool" where
  "positionsEqual first second = (fst first = fst second \<and> snd first = snd second)"

definition tileMatchesAvailable :: "game \<Rightarrow> bool" where
  "tileMatchesAvailable s =
     list_ex (\<lambda>x. list_ex (\<lambda>y.
        case cellContent (grid_of s) (x, y) of
          None \<Rightarrow> False
        | Some tile \<Rightarrow>
            list_ex (\<lambda>d.
               let vector = getVector d;
                   c = (x + fst vector, y + snd vector)
               in case cellContent (grid_of s) c of
                    None \<Rightarrow> False
                  | Some other \<Rightarrow> tile_value other = tile_value tile)
              [DirUp, DirRight, DirDown, DirLeft])
        (map int [0..<size_of s])) (map int [0..<size_of s])"

definition movesAvailable :: "game \<Rightarrow> bool" where
  "movesAvailable s = (cellsAvailable (grid_of s) \<or> tileMatchesAvailable s)"

text \<open>
  The local variables \<open>moved\<close> and \<open>maxMergeValue\<close> of \<open>move\<close>, next to the game manager.
\<close>

record frame =
  self :: game
  moved :: bool
  maxMergeValue :: nat

text \<open>
  The body of the two nested \<open>forEach\<close> of \<open>move\<close>, for one cell. The array
  \<open>merged.mergedFrom\<close> holds the tile object itself, so the position the later
  \<open>tile.updatePosition(positions.next)\<close> gives the tile is seen through it.
\<close>

definition visit :: "direction \<Rightarrow> cell \<Rightarrow> frame \<Rightarrow> frame" where
  "visit d c fr =
     (case cellContent (grid_of (self fr)) c of
        None \<Rightarrow> fr
      | Some tile \<Rightarrow>
          (let positions = findFarthestPosition (grid_of (self fr)) c d;
               farthest = fst positions;
               next = cellContent (grid_of (self fr)) (snd positions)
           in case (case next of
                      None \<Rightarrow> None
                    | Some n \<Rightarrow> if tile_value n = tile_value tile \<and> mergedFrom n = None
                                then Some n else None) of
                Some n \<Rightarrow>
                  (let tile' = updatePosition tile (snd positions);
                       merged = set_mergedFrom (new_Tile (snd positions) (tile_value tile * 2))
                                  (Some (tile', n));
                       g = removeTile (insertTile (grid_of (self fr)) merged) tile;
                       s = (self fr)\<lparr>grid_of := g, score := score (self fr) + tile_value merged\<rparr>;
                       mx = (if tile_value merged > maxMergeValue fr then tile_value merged
                             else maxMergeValue fr);
                       s = (if tile_value merged \<ge> 64
                            then emitEvent (GameMilestone (tile_value merged)) s else s);
                       s = (if tile_value merged = 2048
                            then emitEvent GameWon (s\<lparr>won := True\<rparr>) else s)
                   in \<lparr>self = s,
                       moved = (if \<not> positionsEqual c (tile_x tile', tile_y tile') then True
                                else moved fr),
                       maxMergeValue = mx\<rparr>)
              | None \<Rightarrow>
                  (let tile' = updatePosition tile farthest;
                       g = moveTile (grid_of (self fr)) tile farthest
                   in fr\<lparr>self := (self fr)\<lparr>grid_of := g\<rparr>,
                         moved := (if \<not> positionsEqual c (tile_x tile', tile_y tile') then True
                                   else moved fr)\<rparr>)))"

text \<open>
  The first part of \<open>move\<close>, for a game that is not terminated: \<open>prepareTiles\<close> and
  the traversal of the grid. The result is the state at the test \<open>if (moved)\<close>.
\<close>

definition traverse :: "direction \<Rightarrow> game \<Rightarrow> frame" where
  "traverse d s =
     (let vector = getVector d;
          traversals = buildTraversals (size_of s) vector
      in fold (\<lambda>x. fold (\<lambda>y. visit d (x, y)) (snd traversals)) (fst traversals)
           \<lparr>self = s\<lparr>grid_of := prepareTiles (grid_of s)\<rparr>, moved = False,
            maxMergeValue = 0\<rparr>)"

definition move :: "real \<Rightarrow> real \<Rightarrow> direction \<Rightarrow> game \<Rightarrow> game" where
  "move r1 r2 d s =
     (if isGameTerminated s then s
      else
        (let fr = traverse d s
         in if moved fr then
              (let s = addRandomTile r1 r2 (self fr);
                   s = (if \<not> movesAvailable s then emitEvent GameOver (s\<lparr>over := True\<rparr>)
                        else s);
                   s = emitEvent (GameMove d) s;
                   s = (if maxMergeValue fr > 0 then emitEvent (GameMerge (maxMergeValue fr)) s
                        else s)
               in actuate s)
            else self fr))"

text \<open>
  The invariant of the grid: it is N x N for the size the game manager was built
  with, and every tile records the position of the cell that holds it.
\<close>

definition wf_grid :: "grid \<Rightarrow> bool" where
  "wf_grid g =
     (length (cells g) = gsize g \<and> list_all (\<lambda>row. length row = gsize g) (cells g) \<and>
      list_all (\<lambda>c. case cellContent g c of None \<Rightarrow> True
                     | Some t \<Rightarrow> (tile_x t, tile_y t) = c) (eachCell g))"

definition wf_game :: "game \<Rightarrow> bool" where
  "wf_game s = (wf_grid (grid_of s) \<and> gsize (grid_of s) = size_of s)"

text \<open>A grid from its rows of values as they appear on the screen (0 for an empty cell):
  \<open>cells[x][y]\<close> is the entry \<open>x\<close> of row \<open>y\<close>.\<close>

definition grid_of_rows :: "nat list list \<Rightarrow> grid" where
  "grid_of_rows rows =
     \<lparr>gsize = length rows,
      cells = map (\<lambda>x. map (\<lambda>y. let v = rows ! y ! x
                                in if v = 0 then None else Some (new_Tile (int x, int y) v))
                         [0..<length rows]) [0..<length rows]\<rparr>"

definition rows_of_grid :: "grid \<Rightarrow> nat list list" where
  "rows_of_grid g =
     map (\<lambda>y. map (\<lambda>x. case cellContent g (int x, int y) of None \<Rightarrow> 0
                         | Some t \<Rightarrow> tile_value t) [0..<gsize g]) [0..<gsize g]"

definition new_game :: "nat list list \<Rightarrow> game" where
  "new_game rows =
     \<lparr>size_of = length rows, grid_of = grid_of_rows rows, score = 0, over = False,
      won = False, keepPlaying = False,
      storage = \<lparr>bestScore = 0, gameState = None\<rparr>, emitted = []\<rparr>"

section \<open>Notions used in the statements and proofs about the game manager\<close>

text \<open>The array of a grid is N x N.\<close>

definition dims :: "grid \<Rightarrow> bool" where
  "dims g = (length (cells g) = gsize g \<and> (\<forall>i < length (cells g). length (cells g ! i) = gsize g))"

text \<open>The sum of a quantity over the cells of the grid.\<close>

definition gsum :: "(tile option \<Rightarrow> 'a::comm_monoid_add) \<Rightarrow> grid \<Rightarrow> 'a" where
  "gsum F g = sum_list (map (\<lambda>c. F (cellContent g c)) (eachCell g))"

text \<open>\<open>ahead d c c'\<close>: the cell \<open>c'\<close> lies in the line of \<open>c\<close>, beyond it in the direction \<open>d\<close>.\<close>

fun ahead :: "direction \<Rightarrow> cell \<Rightarrow> cell \<Rightarrow> bool" where
  "ahead DirUp c c' = (fst c' = fst c \<and> snd c' < snd c)"
| "ahead DirRight c c' = (snd c' = snd c \<and> fst c' > fst c)"
| "ahead DirDown c c' = (fst c' = fst c \<and> snd c' > snd c)"
| "ahead DirLeft c c' = (snd c' = snd c \<and> fst c' < fst c)"

text \<open>The events \<open>move\<close> emits at a merge that produces the value \<open>v\<close>, in their order.\<close>

definition merge_events :: "nat \<Rightarrow> event list" where
  "merge_events v = (if v \<ge> 64 then [GameMilestone v] else []) @ (if v = 2048 then [GameWon] else [])"

text \<open>The tile a merge of \<open>tile\<close> into \<open>nt\<close> at the cell \<open>n\<close> creates.\<close>

definition merged_tile :: "tile \<Rightarrow> tile \<Rightarrow> cell \<Rightarrow> tile" where
  "merged_tile tile nt n =
     Tile (fst n) (snd n) (tile_value tile * 2) None (Some (updatePosition tile n, nt))"

text \<open>The cells in the order the two nested \<open>forEach\<close> of \<open>move\<close> visit them.\<close>

definition traversal_order :: "direction \<Rightarrow> nat \<Rightarrow> cell list" where
  "traversal_order d n =
     List.product (fst (buildTraversals n (getVector d))) (snd (buildTraversals n (getVector d)))"

text \<open>
  The tiles on the grid; those with a merge-source pair, which after \<open>prepareTiles\<close>
  are the tiles the merges of the current move produced; and their values.
\<close>

definition tiles :: "grid \<Rightarrow> tile list" where
  "tiles g = concat (map (\<lambda>c. case cellContent g c of None \<Rightarrow> [] | Some t \<Rightarrow> [t]) (eachCell g))"

definition mergedTiles :: "grid \<Rightarrow> tile list" where
  "mergedTiles g = filter (\<lambda>t. mergedFrom t \<noteq> None) (tiles g)"

definition mergedValues :: "grid \<Rightarrow> nat list" where
  "mergedValues g = map tile_value (mergedTiles g)"

definition mval :: "tile option \<Rightarrow> nat multiset" where
  "mval t = (case t of None \<Rightarrow> {#}
             | Some t \<Rightarrow> if mergedFrom t = None then {#} else {#tile_value t#})"

text \<open>No tile in the cells \<open>cs\<close> has a merge-source pair.\<close>

definition unmerged_at :: "grid \<Rightarrow> cell list \<Rightarrow> bool" where
  "unmerged_at g cs = (\<forall>c \<in> set cs. \<forall>t. cellContent g c = Some t \<longrightarrow> mergedFrom t = None)"

text \<open>
  Every tile with a merge-source pair comes from two tiles without one, of equal
  value, and its value is the sum of theirs.
\<close>

definition sources_ok :: "grid \<Rightarrow> bool" where
  "sources_ok g =
     (\<forall>c t a b. cellContent g c = Some t \<longrightarrow> mergedFrom t = Some (a, b) \<longrightarrow>
        mergedFrom a = None \<and> mergedFrom b = None \<and> tile_value a = tile_value b \<and>
        tile_value t = tile_value a + tile_value b)"

text \<open>
  \<open>accounts vs fr fr'\<close>: from \<open>fr\<close> to \<open>fr'\<close> the merges produced the values \<open>vs\<close>, in this
  order, and the score, the events, the won flag, the highest merge value and the
  merged tiles on the grid changed accordingly.
\<close>

definition accounts :: "nat list \<Rightarrow> frame \<Rightarrow> frame \<Rightarrow> bool" where
  "accounts vs fr fr' =
     (score (self fr') = score (self fr) + sum_list vs \<and>
      emitted (self fr') = emitted (self fr) @ concat (map merge_events vs) \<and>
      won (self fr') = (won (self fr) \<or> 2048 \<in> set vs) \<and>
      maxMergeValue fr' = fold max vs (maxMergeValue fr) \<and>
      gsum mval (grid_of (self fr')) = gsum mval (grid_of (self fr)) + mset vs \<and>
      over (self fr') = over (self fr) \<and> keepPlaying (self fr') = keepPlaying (self fr) \<and>
      storage (self fr') = storage (self fr))"

section \<open>Example games\<close>

text \<open>Every tile is packed against the left wall and no two neighbours in a row are equal.\<close>

definition game_packed :: game where
  "game_packed = new_game [[2, 4, 0, 0], [4, 0, 0, 0], [0, 0, 0, 0], [8, 2, 4, 0]]"


text \<open>A row \<open>2 2 4\<close> against the right wall, and two tiles of 32.\<close>

definition game_row :: game where
  "game_row = new_game [[0, 2, 2, 4], [0, 0, 0, 0], [0, 0, 0, 0], [32, 32, 0, 0]]"

text \<open>The tile that moving \<open>game_row\<close> to the right creates from the two tiles of 2.\<close>

definition merged_4 :: tile where
  "merged_4 =
     Tile 2 0 4 None (Some (Tile 2 0 2 (Some (1, 0)) None, Tile 2 0 2 (Some (2, 0)) None))"

text \<open>A game already won (it holds a tile of 2048), continued with \<open>keepPlaying\<close>, that holds
  two tiles of 1024.\<close>

definition game_won_continue :: game where
  "game_won_continue =
     (new_game [[1024, 1024, 0, 2048], [0, 0, 0, 0], [0, 0, 0, 0], [32, 0, 0, 0]])
       \<lparr>won := True, keepPlaying := True\<rparr>"

text \<open>The same board, won and not continued: the game is terminated.\<close>

definition game_won_stopped :: game where
  "game_won_stopped =
     (new_game [[1024, 1024, 0, 2048], [0, 0, 0, 0], [0, 0, 0, 0], [32, 0, 0, 0]])
       \<lparr>won := True\<rparr>"

section \<open>Theorems: event bus\<close>

text \<open>
  When no handler changes the subscriber list (every body is empty or only throws),
  a publish calls every subscriber of the topic once, in subscription order, whether
  or not some of them throw.
\<close>

lemma invoke_plain:
  assumes "P f = [] \<or> P f = [CmdThrow]"
  shows "events (invoke P ev d (Fn f) b) = events b \<and>
         calls (invoke P ev d (Fn f) b) = calls b @ [(f, d)]"
  using assms by (auto simp: invoke_def)

lemma forEach_plain:
  assumes "\<forall>f. P f = [] \<or> P f = [CmdThrow]"
    and "events b ev = Some arr" "\<forall>c \<in> set arr. \<exists>f. c = Fn f" "len \<le> length arr"
  shows "events (forEach P ev d k len b) = events b \<and>
         calls (forEach P ev d k len b) =
           calls b @ map (\<lambda>c. (fn_of c, d)) (take (len - k) (drop k arr))"
  using assms
proof (induction P ev d k len b rule: forEach.induct)
  case (1 P ev d k len b)
  show ?case
  proof (cases "k < len")
    case False
    then show ?thesis by simp
  next
    case True
    then have kl: "k < length arr" using "1.prems" by simp
    then obtain f where f: "arr ! k = Fn f" using "1.prems"(3) by (metis nth_mem)
    let ?b = "invoke P ev d (arr ! k) b"
    have pf: "P f = [] \<or> P f = [CmdThrow]" using "1.prems"(1) by blast
    from invoke_plain[where P=P and f=f and ev=ev and d=d and b=b] pf
    have i: "events ?b = events b" "calls ?b = calls b @ [(f, d)]" by (simp_all add: f)
    have e: "events ?b ev = Some arr" using i(1) "1.prems"(2) by simp
    from "1.IH"(2)[OF True "1.prems"(2) kl "1.prems"(1) e "1.prems"(3,4)]
    have ih: "events (forEach P ev d (Suc k) len ?b) = events ?b"
      "calls (forEach P ev d (Suc k) len ?b) =
         calls ?b @ map (\<lambda>c. (fn_of c, d)) (take (len - Suc k) (drop (Suc k) arr))"
      by simp_all
    have u: "forEach P ev d k len b = forEach P ev d (Suc k) len ?b"
      using True kl "1.prems"(2) by (subst forEach.simps) simp
    have "take (len - k) (drop k arr) = arr ! k # take (len - Suc k) (drop (Suc k) arr)"
      using True kl by (simp add: Cons_nth_drop_Suc[symmetric] Suc_diff_Suc[symmetric]
          del: Suc_diff_Suc)
    then show ?thesis unfolding u using ih i by (simp add: f del: forEach.simps)
  qed
qed

lemma emit_invokes_all_when_list_unchanged:
  assumes "\<forall>f. P f = [] \<or> P f = [CmdThrow]" "\<forall>c \<in> set arr. \<exists>f. c = Fn f"
    and "events b ev = Some arr"
  shows "invoked P ev d b = subscribed ev b"
  using forEach_plain[OF assms(1,3,2), of "length arr" d 0]
  by (simp add: invoked_def emit_def subscribed_def assms(3) comp_def)

text \<open>A once-subscriber that returns normally is called by the first publish only.\<close>

lemma once_plain_handler_called_once:
  "P f = [] \<Longrightarrow> calls (emit P ev d' (emit P ev d (once ev f EventBus))) = [(f, d)]"
  by (simp add: once_def on_def EventBus_def emit_def invoke_def off_def splice1_def)

text \<open>
  Claim C2: a publish invokes exactly the handlers subscribed when it begins, in
  subscription order, and a handler removed during the publish does not cause another
  handler of that snapshot to be skipped. The code iterates over the live array: with
  the handlers 0 and 1 subscribed, in this order, where handler 0 unsubscribes itself,
  one publish calls handler 0 only; handler 1 has moved to index 0, which the loop has
  passed, and is skipped.
\<close>

theorem emit_skips_after_unsubscribe:
  "subscribed ''t'' bus_two = [0, 1] \<and> invoked prog_unsub ''t'' d bus_two = [0]"
  by (simp add: subscribed_def invoked_def bus_two_def on_def EventBus_def emit_def
      invoke_def prog_unsub_def off_def splice1_def)

text \<open>
  Claim C5: a handler registered with \<open>once\<close> is removed after its first invocation,
  also when it throws, and is never invoked by a second publish. In the code the
  closure calls the handler before it calls \<open>off\<close>: when the handler throws, the closure
  stays subscribed, and the second publish calls the handler again.
\<close>

theorem once_throwing_handler_called_twice:
  "subscribed ''t'' (emit prog_throw ''t'' d bus_once) = [0] \<and>
   calls (emit prog_throw ''t'' d' (emit prog_throw ''t'' d bus_once)) = [(0, d), (0, d')]"
  by (simp add: subscribed_def bus_once_def once_def on_def EventBus_def emit_def
      invoke_def prog_throw_def off_def splice1_def)

section \<open>Theorems: particle set\<close>

text \<open>
  The bursts that read \<open>maxParticles\<close> never take the list above it.
\<close>

lemma pushLoop_length:
  "length (particles (pushLoop n mk v)) = length (particles v) + nat \<lceil>n\<rceil>"
  by (simp add: pushLoop_def)

lemma capped_bursts_keep_maxParticles:
  assumes "int (length (particles v)) \<le> maxParticles v"
  shows "int (length (particles (victoryWave mk v))) \<le> maxParticles v"
    and "int (length (particles (gameOverWave mk v))) \<le> maxParticles v"
    and "int (length (particles (triggerMilestone val mk v))) \<le> maxParticles v"
    and "int (length (particles (triggerMerge val mk v))) \<le> maxParticles v"
proof -
  have a: "0 \<le> availableSlots v" using assms by (simp add: availableSlots_def)
  have b: "int (length (particles (pushLoop n mk v))) \<le> maxParticles v"
    if "n \<le> real_of_int (availableSlots v)" for n
  proof -
    have "\<lceil>n\<rceil> \<le> availableSlots v" using that by (simp add: ceiling_le_iff)
    then have "int (nat \<lceil>n\<rceil>) \<le> availableSlots v" using a by simp
    then show ?thesis by (simp add: pushLoop_length availableSlots_def)
  qed
  show "int (length (particles (victoryWave mk v))) \<le> maxParticles v"
    unfolding victoryWave_def Let_def by (rule b) simp
  show "int (length (particles (gameOverWave mk v))) \<le> maxParticles v"
    unfolding gameOverWave_def Let_def by (rule b) simp
  show "int (length (particles (triggerMilestone val mk v))) \<le> maxParticles v"
    unfolding triggerMilestone_def Let_def by (rule b) simp
  show "int (length (particles (triggerMerge val mk v))) \<le> maxParticles v"
    unfolding triggerMerge_def Let_def by (rule b) simp
qed

text \<open>
  Claim C4: every spawn request, the delayed mist wave of the victory included, is
  truncated to the capacity left below \<open>maxParticles = 300\<close>, so the particle list never
  holds more than 300 particles. The mist wave of \<open>triggerVictory\<close> pushes 30 particles
  without reading \<open>maxParticles\<close>: from the 150 particles of the constructor, the three
  celebration waves fill the list to 300 and the mist wave takes it to 330.
\<close>

theorem victory_mist_exceeds_maxParticles:
  "length (particles (triggerVictory_timers mk (VisualEffectsManager mk))) = 330 \<and>
   maxParticles (triggerVictory_timers mk (VisualEffectsManager mk)) = 300"
  by (simp add: triggerVictory_timers_def VisualEffectsManager_def victoryMist_def
      victoryWave_def pushLoop_def availableSlots_def)

section \<open>Theorems: progress model\<close>






section \<open>Theorems: game manager\<close>

subsection \<open>Cells of a well-formed grid\<close>

lemma set_eachCell: "c \<in> set (eachCell g) \<longleftrightarrow> withinBounds g c"
  by (cases c) (auto simp: eachCell_def withinBounds_def image_iff intro: bexI[of _ "nat _"])

lemma distinct_eachCell: "distinct (eachCell g)"
  by (simp add: eachCell_def distinct_product distinct_map inj_on_def)

lemma withinBounds_cells_update [simp]: "withinBounds (g\<lparr>cells := cs\<rparr>) = withinBounds g"
  by (simp add: withinBounds_def fun_eq_iff)

lemma gsize_setCell [simp]: "gsize (setCell g c v) = gsize g"
  by (simp add: setCell_def)

lemma withinBounds_setCell [simp]: "withinBounds (setCell g c v) = withinBounds g"
  by (simp add: withinBounds_def fun_eq_iff)

lemma eachCell_setCell [simp]: "eachCell (setCell g c v) = eachCell g"
  by (simp add: eachCell_def)

lemma dims_setCell: "dims g \<Longrightarrow> dims (setCell g c v)"
proof -
  assume d: "dims g"
  have "length (cells (setCell g c v) ! i) = gsize g" if "i < length (cells g)" for i
    using that d by (cases "i = nat (fst c)") (auto simp: setCell_def dims_def)
  then show ?thesis using d by (simp add: dims_def setCell_def)
qed

lemma cellContent_setCell:
  assumes "dims g" "withinBounds g c"
  shows "cellContent (setCell g c v) c' = (if c' = c then v else cellContent g c')"
proof (cases "withinBounds g c'")
  case False
  then show ?thesis using assms by (auto simp: cellContent_def)
next
  case True
  obtain x y where c: "c = (x, y)" by (cases c)
  obtain x' y' where c': "c' = (x', y')" by (cases c')
  have b: "nat x < length (cells g)" "nat y < length (cells g ! nat x)"
    "nat x' < length (cells g)" "nat y' < length (cells g ! nat x')"
    using assms True by (auto simp: dims_def withinBounds_def c c')
  have "0 \<le> x" "0 \<le> y" "0 \<le> x'" "0 \<le> y'" using assms True by (auto simp: withinBounds_def c c')
  then have e: "nat x = nat x' \<longleftrightarrow> x = x'" "nat y = nat y' \<longleftrightarrow> y = y'" by auto
  show ?thesis using True b e
    by (auto simp: cellContent_def setCell_def c c' nth_list_update)
qed

lemma wf_grid_iff:
  "wf_grid g \<longleftrightarrow> dims g \<and> (\<forall>c t. cellContent g c = Some t \<longrightarrow> (tile_x t, tile_y t) = c)"
proof -
  have "list_all (\<lambda>c. case cellContent g c of None \<Rightarrow> True | Some t \<Rightarrow> (tile_x t, tile_y t) = c)
          (eachCell g) \<longleftrightarrow> (\<forall>c t. cellContent g c = Some t \<longrightarrow> (tile_x t, tile_y t) = c)"
    (is "?L \<longleftrightarrow> ?R")
  proof
    assume l: ?L
    show ?R
    proof (intro allI impI)
      fix c t assume ct: "cellContent g c = Some t"
      then have "withinBounds g c" by (auto simp: cellContent_def split: if_splits)
      then have "c \<in> set (eachCell g)" by (simp add: set_eachCell)
      with l ct show "(tile_x t, tile_y t) = c" by (auto simp: list_all_iff)
    qed
  next
    assume ?R then show ?L by (auto simp: list_all_iff split: option.splits)
  qed
  moreover have "(length (cells g) = gsize g \<and> list_all (\<lambda>row. length row = gsize g) (cells g)) = dims g"
    by (auto simp: dims_def list_all_length)
  ultimately show ?thesis by (auto simp: wf_grid_def)
qed

lemma grid_eqI:
  fixes g g' :: grid
  assumes "dims g" "dims g'" "gsize g = gsize g'"
    and "\<And>c. withinBounds g c \<Longrightarrow> cellContent g c = cellContent g' c"
  shows "g = g'"
proof -
  have "cells g ! i ! j = cells g' ! i ! j" if "i < gsize g" "j < gsize g" for i j
  proof -
    have w: "withinBounds g (int i, int j)" "withinBounds g' (int i, int j)"
      using that assms(3) by (auto simp: withinBounds_def)
    from assms(4)[OF w(1)] w show ?thesis by (simp add: cellContent_def)
  qed
  then have "cells g ! i = cells g' ! i" if "i < gsize g" for i
    using that assms(1,2,3) by (intro nth_equalityI) (auto simp: dims_def)
  then have "cells g = cells g'"
    using assms(1,2,3) by (intro nth_equalityI) (auto simp: dims_def)
  then show ?thesis using assms(3) by simp
qed

lemma setCell_same:
  assumes "dims g" "withinBounds g c" "cellContent g c = v"
  shows "setCell g c v = g"
  using assms by (intro grid_eqI) (auto simp: dims_setCell cellContent_setCell)

lemma setCell_twice:
  assumes "dims g" "withinBounds g c"
  shows "setCell (setCell g c v) c w = setCell g c w"
  using assms by (intro grid_eqI) (auto simp: dims_setCell cellContent_setCell)

lemma sum_list_map_upd:
  fixes F :: "'b \<Rightarrow> 'a::comm_monoid_add"
  assumes "distinct cs" "c \<in> set cs"
  shows "sum_list (map (\<lambda>c'. F (if c' = c then v else f c')) cs) + F (f c)
       = sum_list (map (\<lambda>c'. F (f c')) cs) + F v"
  using assms
proof (induction cs)
  case Nil then show ?case by simp
next
  case (Cons a cs)
  show ?case
  proof (cases "a = c")
    case True
    then have "c \<notin> set cs" using Cons.prems by simp
    then have eq: "map (\<lambda>c'. F (if c' = c then v else f c')) cs = map (\<lambda>c'. F (f c')) cs"
      by (intro map_cong) auto
    show ?thesis by (simp add: True eq ac_simps)
  next
    case False
    then have "c \<in> set cs" "distinct cs" using Cons.prems by auto
    from Cons.IH[OF this(2,1)] False show ?thesis by (simp add: ac_simps)
  qed
qed

lemma gsum_setCell:
  assumes "dims g" "withinBounds g c"
  shows "gsum F (setCell g c v) + F (cellContent g c) = gsum F g + F v"
  using sum_list_map_upd[OF distinct_eachCell, of c g F v "cellContent g"] assms
  by (simp add: gsum_def cellContent_setCell set_eachCell)

subsection \<open>findFarthestPosition\<close>

declare findFarthestPosition.simps [simp del]

lemma findFarthestPosition_props:
  assumes "findFarthestPosition g p d = (f, n)"
  shows "n = (fst f + fst (getVector d), snd f + snd (getVector d)) \<and>
         (f = p \<or> (ahead d p f \<and> withinBounds g f \<and> cellContent g f = None)) \<and>
         \<not> (withinBounds g n \<and> cellAvailable g n)"
  using assms
proof (induction g p d rule: findFarthestPosition.induct)
  case (1 g previous d)
  define c where "c = (fst previous + fst (getVector d), snd previous + snd (getVector d))"
  have step: "ahead d previous c" by (cases d) (auto simp: c_def)
  have unf: "findFarthestPosition g previous d =
      (if withinBounds g c \<and> cellAvailable g c then findFarthestPosition g c d
       else (previous, c))"
    by (subst findFarthestPosition.simps) (simp add: Let_def c_def)
  show ?case
  proof (cases "withinBounds g c \<and> cellAvailable g c")
    case True
    have "findFarthestPosition g c d = (f, n)"
      using "1.prems" unfolding unf if_P[OF True] .
    from "1.IH"[OF c_def True this] have
      ih: "n = (fst f + fst (getVector d), snd f + snd (getVector d))"
          "f = c \<or> (ahead d c f \<and> withinBounds g f \<and> cellContent g f = None)"
          "\<not> (withinBounds g n \<and> cellAvailable g n)" by auto
    have "ahead d previous f \<and> withinBounds g f \<and> cellContent g f = None"
      using ih(2) True step by (cases d) (auto simp: cellAvailable_def cellOccupied_def)
    then show ?thesis using ih by simp
  next
    case False
    have "(f, n) = (previous, c)"
      using "1.prems" unfolding unf if_not_P[OF False] by simp
    then show ?thesis using False by (simp add: c_def)
  qed
qed

lemma findFarthestPosition_next_ahead:
  assumes "findFarthestPosition g p d = (f, n)"
  shows "ahead d p n"
proof -
  from findFarthestPosition_props[OF assms]
  have "n = (fst f + fst (getVector d), snd f + snd (getVector d))" "f = p \<or> ahead d p f"
    by auto
  then show ?thesis by (cases d) auto
qed

lemma ahead_neq: "ahead d c c' \<Longrightarrow> c' \<noteq> c"
  by (cases d) auto

subsection \<open>One cell of the traversal\<close>

lemma wf_grid_dims: "wf_grid g \<Longrightarrow> dims g"
  by (simp add: wf_grid_iff)

lemma wf_grid_pos: "wf_grid g \<Longrightarrow> cellContent g c = Some t \<Longrightarrow> (tile_x t, tile_y t) = c"
  unfolding wf_grid_iff by blast

lemma cellContent_Some_withinBounds: "cellContent g c = Some t \<Longrightarrow> withinBounds g c"
  by (auto simp: cellContent_def split: if_splits)

lemma visit_empty: "cellContent (grid_of (self fr)) c = None \<Longrightarrow> visit d c fr = fr"
  by (simp add: visit_def)

lemma visit_merge:
  assumes "wf_grid (grid_of (self fr))"
    and "cellContent (grid_of (self fr)) c = Some tile"
    and "findFarthestPosition (grid_of (self fr)) c d = (f, n)"
    and "cellContent (grid_of (self fr)) n = Some nt"
    and "tile_value nt = tile_value tile" "mergedFrom nt = None"
  shows "grid_of (self (visit d c fr)) =
           setCell (setCell (grid_of (self fr)) n (Some (merged_tile tile nt n))) c None"
    and "score (self (visit d c fr)) = score (self fr) + tile_value tile * 2"
    and "emitted (self (visit d c fr)) = emitted (self fr) @ merge_events (tile_value tile * 2)"
    and "won (self (visit d c fr)) = (won (self fr) \<or> tile_value tile * 2 = 2048)"
    and "moved (visit d c fr)"
    and "maxMergeValue (visit d c fr) = max (maxMergeValue fr) (tile_value tile * 2)"
    and "size_of (self (visit d c fr)) = size_of (self fr)"
    and "over (self (visit d c fr)) = over (self fr)"
    and "keepPlaying (self (visit d c fr)) = keepPlaying (self fr)"
    and "storage (self (visit d c fr)) = storage (self fr)"
proof -
  have pos: "(tile_x tile, tile_y tile) = c" using assms(1,2) by (rule wf_grid_pos)
  have "n \<noteq> c" using findFarthestPosition_next_ahead[OF assms(3)] by (rule ahead_neq)
  then have ne: "\<not> positionsEqual c n" by (auto simp: positionsEqual_def prod_eq_iff)
  note defs = visit_def assms(2,3,4,5,6) Let_def new_Tile_def set_mergedFrom_def insertTile_def
    removeTile_def emitEvent_def merged_tile_def updatePosition_def
  show "grid_of (self (visit d c fr)) =
           setCell (setCell (grid_of (self fr)) n (Some (merged_tile tile nt n))) c None"
    using pos by (simp add: defs)
  show "score (self (visit d c fr)) = score (self fr) + tile_value tile * 2"
    by (simp add: defs)
  show "emitted (self (visit d c fr)) = emitted (self fr) @ merge_events (tile_value tile * 2)"
    by (simp add: defs merge_events_def)
  show "won (self (visit d c fr)) = (won (self fr) \<or> tile_value tile * 2 = 2048)"
    by (simp add: defs)
  show "moved (visit d c fr)"
    using ne by (simp add: defs positionsEqual_def)
  show "maxMergeValue (visit d c fr) = max (maxMergeValue fr) (tile_value tile * 2)"
    by (simp add: defs max_def)
  show "size_of (self (visit d c fr)) = size_of (self fr)"
    "over (self (visit d c fr)) = over (self fr)"
    "keepPlaying (self (visit d c fr)) = keepPlaying (self fr)"
    "storage (self (visit d c fr)) = storage (self fr)"
    by (simp_all add: defs)
qed

lemma visit_slide:
  assumes "wf_grid (grid_of (self fr))"
    and "cellContent (grid_of (self fr)) c = Some tile"
    and "findFarthestPosition (grid_of (self fr)) c d = (f, n)"
    and "\<And>nt. cellContent (grid_of (self fr)) n = Some nt \<Longrightarrow>
           \<not> (tile_value nt = tile_value tile \<and> mergedFrom nt = None)"
  shows "visit d c fr =
           fr\<lparr>self := (self fr)\<lparr>grid_of :=
                 setCell (setCell (grid_of (self fr)) c None) f (Some (updatePosition tile f))\<rparr>,
              moved := (f \<noteq> c \<or> moved fr)\<rparr>"
proof -
  have pos: "(tile_x tile, tile_y tile) = c" using assms(1,2) by (rule wf_grid_pos)
  have nm: "(case cellContent (grid_of (self fr)) n of None \<Rightarrow> None
        | Some n \<Rightarrow> if tile_value n = tile_value tile \<and> mergedFrom n = None then Some n else None)
        = None"
    using assms(4) by (auto split: option.splits)
  show ?thesis using pos
    by (auto simp: visit_def assms(2,3) nm Let_def moveTile_def positionsEqual_def
        updatePosition_def prod_eq_iff)
qed

lemma visit_slide_stay:
  assumes "wf_grid (grid_of (self fr))"
    and "cellContent (grid_of (self fr)) c = Some tile"
    and "findFarthestPosition (grid_of (self fr)) c d = (c, n)"
    and "\<And>nt. cellContent (grid_of (self fr)) n = Some nt \<Longrightarrow>
           \<not> (tile_value nt = tile_value tile \<and> mergedFrom nt = None)"
  shows "visit d c fr = fr"
proof -
  have pos: "(tile_x tile, tile_y tile) = c" using assms(1,2) by (rule wf_grid_pos)
  then have up: "updatePosition tile c = tile"
    by (cases tile) (auto simp: updatePosition_def)
  have w: "withinBounds (grid_of (self fr)) c"
    using assms(2) by (rule cellContent_Some_withinBounds)
  have "setCell (setCell (grid_of (self fr)) c None) c (Some tile) = grid_of (self fr)"
    using assms(1,2) w by (simp add: setCell_twice setCell_same wf_grid_dims)
  then show ?thesis
    by (simp add: visit_slide[OF assms] up)
qed

lemma visit_cases [case_names empty merge stay slide]:
  obtains
    (empty) "cellContent (grid_of (self fr)) c = None"
  | (merge) tile f n nt where
      "cellContent (grid_of (self fr)) c = Some tile"
      "findFarthestPosition (grid_of (self fr)) c d = (f, n)"
      "cellContent (grid_of (self fr)) n = Some nt"
      "tile_value nt = tile_value tile" "mergedFrom nt = None"
  | (stay) tile n where
      "cellContent (grid_of (self fr)) c = Some tile"
      "findFarthestPosition (grid_of (self fr)) c d = (c, n)"
      "\<And>nt. cellContent (grid_of (self fr)) n = Some nt \<Longrightarrow>
           \<not> (tile_value nt = tile_value tile \<and> mergedFrom nt = None)"
  | (slide) tile f n where
      "cellContent (grid_of (self fr)) c = Some tile"
      "findFarthestPosition (grid_of (self fr)) c d = (f, n)" "f \<noteq> c"
      "\<And>nt. cellContent (grid_of (self fr)) n = Some nt \<Longrightarrow>
           \<not> (tile_value nt = tile_value tile \<and> mergedFrom nt = None)"
proof (cases "cellContent (grid_of (self fr)) c")
  case None then show ?thesis by (rule empty)
next
  case (Some tile)
  obtain f n where ffp: "findFarthestPosition (grid_of (self fr)) c d = (f, n)"
    by (cases "findFarthestPosition (grid_of (self fr)) c d")
  show ?thesis
  proof (cases "\<exists>nt. cellContent (grid_of (self fr)) n = Some nt \<and>
                 tile_value nt = tile_value tile \<and> mergedFrom nt = None")
    case True
    then show ?thesis using Some ffp merge by blast
  next
    case False
    then have nm: "\<And>nt. cellContent (grid_of (self fr)) n = Some nt \<Longrightarrow>
           \<not> (tile_value nt = tile_value tile \<and> mergedFrom nt = None)" by blast
    show ?thesis
    proof (cases "f = c")
      case True then show ?thesis using Some ffp nm stay by blast
    next
      case False then show ?thesis using Some ffp nm slide by blast
    qed
  qed
qed

lemma farthest_withinBounds:
  assumes "findFarthestPosition g c d = (f, n)" "withinBounds g c"
  shows "withinBounds g f"
  using findFarthestPosition_props[OF assms(1)] assms(2) by auto

lemma visit_wf:
  assumes "wf_grid (grid_of (self fr))"
  shows "wf_grid (grid_of (self (visit d c fr))) \<and>
         gsize (grid_of (self (visit d c fr))) = gsize (grid_of (self fr)) \<and>
         size_of (self (visit d c fr)) = size_of (self fr)"
proof (cases rule: visit_cases[where fr=fr and c=c and d=d])
  case empty
  then show ?thesis using assms by (simp add: visit_empty)
next
  case (merge tile f n nt)
  note v = visit_merge[OF assms merge]
  have wc: "withinBounds (grid_of (self fr)) c" and wn: "withinBounds (grid_of (self fr)) n"
    using merge by (auto intro: cellContent_Some_withinBounds)
  have d: "dims (grid_of (self fr))" using assms by (rule wf_grid_dims)
  have "cellContent (grid_of (self (visit d c fr))) c' = Some t \<Longrightarrow> (tile_x t, tile_y t) = c'"
    for c' t
    using wf_grid_pos[OF assms, of c' t] wc wn d
    by (auto simp: v(1) cellContent_setCell dims_setCell merged_tile_def split: if_splits)
  then show ?thesis using d by (simp add: wf_grid_iff v(1,7) dims_setCell)
next
  case (stay tile n)
  then show ?thesis using assms by (simp add: visit_slide_stay)
next
  case (slide tile f n)
  note v = visit_slide[OF assms slide(1,2,4)]
  have wc: "withinBounds (grid_of (self fr)) c"
    using slide by (auto intro: cellContent_Some_withinBounds)
  then have wf': "withinBounds (grid_of (self fr)) f"
    using slide(2) by (auto intro: farthest_withinBounds)
  have d: "dims (grid_of (self fr))" using assms by (rule wf_grid_dims)
  have "cellContent (grid_of (self (visit d c fr))) c' = Some t \<Longrightarrow> (tile_x t, tile_y t) = c'"
    for c' t
    using wf_grid_pos[OF assms, of c' t] wc wf' d
    by (auto simp: v cellContent_setCell dims_setCell updatePosition_def split: if_splits)
  then show ?thesis using d by (simp add: wf_grid_iff v dims_setCell)
qed

lemma visit_moved_mono: "wf_grid (grid_of (self fr)) \<Longrightarrow> moved fr \<Longrightarrow> moved (visit d c fr)"
  by (cases rule: visit_cases[where fr=fr and c=c and d=d])
     (simp_all add: visit_empty visit_merge visit_slide_stay visit_slide)

lemma visit_not_moved:
  assumes "wf_grid (grid_of (self fr))" "\<not> moved (visit d c fr)"
  shows "visit d c fr = fr"
proof (cases rule: visit_cases[where fr=fr and c=c and d=d])
  case empty then show ?thesis by (simp add: visit_empty)
next
  case (merge tile f n nt)
  from visit_merge(5)[OF assms(1) merge] assms(2) show ?thesis by simp
next
  case (stay tile n) then show ?thesis using assms by (simp add: visit_slide_stay)
next
  case (slide tile f n)
  from assms(2) slide(3) show ?thesis
    by (simp add: visit_slide[OF assms(1) slide(1,2,4)])
qed

lemma cellsAvailable_iff:
  "cellsAvailable g \<longleftrightarrow> (\<exists>c. withinBounds g c \<and> cellContent g c = None)"
  unfolding cellsAvailable_def availableCells_def filter_empty_conv
  by (metis set_eachCell)

lemma visit_cellsAvailable:
  assumes "wf_grid (grid_of (self fr))" "moved fr \<longrightarrow> cellsAvailable (grid_of (self fr))"
    and "moved (visit d c fr)"
  shows "cellsAvailable (grid_of (self (visit d c fr)))"
proof (cases rule: visit_cases[where fr=fr and c=c and d=d])
  case empty then show ?thesis using assms by (simp add: visit_empty)
next
  case (merge tile f n nt)
  note v = visit_merge[OF assms(1) merge]
  have wc: "withinBounds (grid_of (self fr)) c" and wn: "withinBounds (grid_of (self fr)) n"
    using merge by (auto intro: cellContent_Some_withinBounds)
  have d: "dims (grid_of (self fr))" using assms(1) by (rule wf_grid_dims)
  have "cellContent (grid_of (self (visit d c fr))) c = None"
    using wc wn d by (simp add: v(1) cellContent_setCell dims_setCell)
  then show ?thesis using wc unfolding cellsAvailable_iff
    by (intro exI[of _ c]) (simp add: v(1))
next
  case (stay tile n) then show ?thesis using assms by (simp add: visit_slide_stay)
next
  case (slide tile f n)
  note v = visit_slide[OF assms(1) slide(1,2,4)]
  have wc: "withinBounds (grid_of (self fr)) c"
    using slide by (auto intro: cellContent_Some_withinBounds)
  then have wf': "withinBounds (grid_of (self fr)) f"
    using slide(2) by (auto intro: farthest_withinBounds)
  have d: "dims (grid_of (self fr))" using assms(1) by (rule wf_grid_dims)
  have "cellContent (grid_of (self (visit d c fr))) c = None"
    using wc wf' d slide(3) by (simp add: v cellContent_setCell dims_setCell)
  then show ?thesis using wc unfolding cellsAvailable_iff
    by (intro exI[of _ c]) (simp add: v)
qed

subsection \<open>The traversal\<close>

lemma fold_nested: "fold (\<lambda>x. fold (\<lambda>y. f (x, y)) ys) xs = fold f (List.product xs ys)"
  by (induction xs) (simp_all add: fold_map comp_def)

lemma traverse_fold:
  "traverse d s = fold (visit d) (traversal_order d (size_of s))
     \<lparr>self = s\<lparr>grid_of := prepareTiles (grid_of s)\<rparr>, moved = False, maxMergeValue = 0\<rparr>"
  by (simp add: traverse_def Let_def traversal_order_def fold_nested)

lemma fold_visit_wf:
  assumes "wf_grid (grid_of (self fr))"
  shows "wf_grid (grid_of (self (fold (visit d) cs fr))) \<and>
         gsize (grid_of (self (fold (visit d) cs fr))) = gsize (grid_of (self fr)) \<and>
         size_of (self (fold (visit d) cs fr)) = size_of (self fr)"
  using assms
proof (induction cs arbitrary: fr)
  case Nil then show ?case by simp
next
  case (Cons c cs)
  from visit_wf[OF Cons.prems, of d c] Cons.IH[of "visit d c fr"] show ?case by simp
qed

lemma fold_visit_not_moved:
  assumes "wf_grid (grid_of (self fr))" "\<not> moved (fold (visit d) cs fr)"
  shows "fold (visit d) cs fr = fr"
  using assms
proof (induction cs arbitrary: fr)
  case Nil then show ?case by simp
next
  case (Cons c cs)
  have w: "wf_grid (grid_of (self (visit d c fr)))" using visit_wf[OF Cons.prems(1)] by simp
  have e: "fold (visit d) cs (visit d c fr) = visit d c fr"
    using Cons.IH[OF w] Cons.prems(2) by simp
  then have "\<not> moved (visit d c fr)" using Cons.prems(2) by simp
  then have "visit d c fr = fr" using Cons.prems(1) by (intro visit_not_moved)
  then show ?case using e by simp
qed

lemma fold_visit_cellsAvailable:
  assumes "wf_grid (grid_of (self fr))" "moved fr \<longrightarrow> cellsAvailable (grid_of (self fr))"
    and "moved (fold (visit d) cs fr)"
  shows "cellsAvailable (grid_of (self (fold (visit d) cs fr)))"
  using assms
proof (induction cs arbitrary: fr)
  case Nil then show ?case by simp
next
  case (Cons c cs)
  have w: "wf_grid (grid_of (self (visit d c fr)))" using visit_wf[OF Cons.prems(1)] by simp
  have "moved (visit d c fr) \<longrightarrow> cellsAvailable (grid_of (self (visit d c fr)))"
    using visit_cellsAvailable[OF Cons.prems(1,2)] by blast
  from Cons.IH[OF w this] Cons.prems(3) show ?case by simp
qed

subsection \<open>prepareTiles\<close>

lemma gsize_prepareTiles [simp]: "gsize (prepareTiles g) = gsize g"
  by (simp add: prepareTiles_def)

lemma dims_prepareTiles: "dims g \<Longrightarrow> dims (prepareTiles g)"
  by (simp add: dims_def prepareTiles_def)

lemma cellContent_prepareTiles:
  "dims g \<Longrightarrow> cellContent (prepareTiles g) c =
     map_option (\<lambda>tile. savePosition (set_mergedFrom tile None)) (cellContent g c)"
  by (auto simp: cellContent_def prepareTiles_def dims_def withinBounds_def)

lemma wf_grid_prepareTiles: "wf_grid g \<Longrightarrow> wf_grid (prepareTiles g)"
  unfolding wf_grid_iff
  by (auto simp: dims_prepareTiles cellContent_prepareTiles savePosition_def set_mergedFrom_def)

lemma serialize_grid_prepareTiles: "serialize_grid (prepareTiles g) = serialize_grid g"
  by (simp add: serialize_grid_def prepareTiles_def option.map_comp comp_def
      savePosition_def set_mergedFrom_def)

lemma eachCell_prepareTiles [simp]: "eachCell (prepareTiles g) = eachCell g"
  by (simp add: eachCell_def)

lemma tileCount_prepareTiles: "dims g \<Longrightarrow> tileCount (prepareTiles g) = tileCount g"
  by (simp add: tileCount_def cellContent_prepareTiles)

lemma traverse_wf:
  assumes "wf_game s"
  shows "wf_grid (grid_of (self (traverse d s)))"
    and "gsize (grid_of (self (traverse d s))) = size_of s"
    and "size_of (self (traverse d s)) = size_of s"
  using assms fold_visit_wf[of "\<lparr>self = s\<lparr>grid_of := prepareTiles (grid_of s)\<rparr>, moved = False,
      maxMergeValue = 0\<rparr>" d "traversal_order d (size_of s)"]
  by (simp_all add: traverse_fold wf_game_def wf_grid_prepareTiles)

lemma traverse_not_moved:
  assumes "wf_game s" "\<not> moved (traverse d s)"
  shows "self (traverse d s) = s\<lparr>grid_of := prepareTiles (grid_of s)\<rparr>"
proof -
  let ?fr = "\<lparr>self = s\<lparr>grid_of := prepareTiles (grid_of s)\<rparr>, moved = False, maxMergeValue = 0\<rparr>"
  have "wf_grid (grid_of (self ?fr))" using assms(1) by (simp add: wf_game_def wf_grid_prepareTiles)
  from fold_visit_not_moved[OF this, of d "traversal_order d (size_of s)"] assms(2)
  show ?thesis by (simp add: traverse_fold)
qed

lemma traverse_cellsAvailable:
  assumes "wf_game s" "moved (traverse d s)"
  shows "cellsAvailable (grid_of (self (traverse d s)))"
proof -
  let ?fr = "\<lparr>self = s\<lparr>grid_of := prepareTiles (grid_of s)\<rparr>, moved = False, maxMergeValue = 0\<rparr>"
  have "wf_grid (grid_of (self ?fr))" using assms(1) by (simp add: wf_game_def wf_grid_prepareTiles)
  from fold_visit_cellsAvailable[OF this, of d "traversal_order d (size_of s)"] assms(2)
  show ?thesis by (simp add: traverse_fold)
qed

subsection \<open>addRandomTile\<close>

lemma tileCount_gsum: "tileCount g = gsum (\<lambda>t. if t = None then 0 else 1) g"
proof -
  have "length (filter (\<lambda>c. f c \<noteq> None) xs) = sum_list (map (\<lambda>c. if f c = None then 0 else 1) xs)"
    for f :: "cell \<Rightarrow> tile option" and xs
    by (induction xs) auto
  then show ?thesis unfolding tileCount_def gsum_def .
qed

lemma randomAvailableCell_available:
  assumes "cellsAvailable g" "0 \<le> r" "r < 1"
  shows "withinBounds g (randomAvailableCell r g) \<and> cellContent g (randomAvailableCell r g) = None"
proof -
  let ?cs = "availableCells g"
  have len: "0 < length ?cs" using assms(1) by (simp add: cellsAvailable_def)
  have "r * real (length ?cs) < real (length ?cs)" using assms(3) len by simp
  then have "\<lfloor>r * real (length ?cs)\<rfloor> < int (length ?cs)" by (simp add: floor_less_iff)
  moreover have "0 \<le> \<lfloor>r * real (length ?cs)\<rfloor>" using assms(2) by simp
  ultimately have "nat \<lfloor>r * real (length ?cs)\<rfloor> < length ?cs" by linarith
  then have "randomAvailableCell r g \<in> set ?cs"
    by (simp add: randomAvailableCell_def Let_def)
  then show ?thesis by (simp add: availableCells_def set_eachCell)
qed

lemma addRandomTile_grid:
  assumes "dims (grid_of s)" "cellsAvailable (grid_of s)" "0 \<le> r2" "r2 < 1"
  shows "\<exists>c v. withinBounds (grid_of s) c \<and> cellContent (grid_of s) c = None \<and>
           (v = 2 \<or> v = 4) \<and>
           addRandomTile r1 r2 s = s\<lparr>grid_of := setCell (grid_of s) c (Some (new_Tile c v))\<rparr>"
  using randomAvailableCell_available[OF assms(2,3,4)] assms(2)
  by (intro exI[of _ "randomAvailableCell r2 (grid_of s)"] exI[of _ "if r1 < 0.9 then 2 else 4"])
     (simp add: addRandomTile_def Let_def insertTile_def new_Tile_def)

lemma addRandomTile_tileCount:
  assumes "dims (grid_of s)" "cellsAvailable (grid_of s)" "0 \<le> r2" "r2 < 1"
  shows "tileCount (grid_of (addRandomTile r1 r2 s)) = tileCount (grid_of s) + 1"
proof -
  from addRandomTile_grid[OF assms, of r1] obtain c v where
    c: "withinBounds (grid_of s) c" "cellContent (grid_of s) c = None"
    and e: "addRandomTile r1 r2 s = s\<lparr>grid_of := setCell (grid_of s) c (Some (new_Tile c v))\<rparr>"
    by blast
  from gsum_setCell[OF assms(1) c(1), of "\<lambda>t. if t = None then 0 else (1::nat)" "Some (new_Tile c v)"]
  show ?thesis by (simp add: e tileCount_gsum c(2))
qed

lemma move_moved:
  assumes "\<not> isGameTerminated s" "moved (traverse d s)"
  shows "grid_of (move r1 r2 d s) = grid_of (addRandomTile r1 r2 (self (traverse d s)))"
  using assms by (simp add: move_def Let_def actuate_def emitEvent_def)

lemma move_not_moved:
  assumes "wf_game s" "isGameTerminated s \<or> \<not> moved (traverse d s)"
  shows "move r1 r2 d s = (if isGameTerminated s then s else s\<lparr>grid_of := prepareTiles (grid_of s)\<rparr>)"
  using assms traverse_not_moved[OF assms(1), of d] by (auto simp: move_def Let_def)

subsection \<open>Merged tiles\<close>

lemma set_tiles: "t \<in> set (tiles g) \<longleftrightarrow> (\<exists>c. cellContent g c = Some t)"
proof
  assume "t \<in> set (tiles g)"
  then obtain c where "t \<in> set (case cellContent g c of None \<Rightarrow> [] | Some t \<Rightarrow> [t])"
    unfolding tiles_def by auto
  then have "cellContent g c = Some t" by (cases "cellContent g c") auto
  then show "\<exists>c. cellContent g c = Some t" ..
next
  assume "\<exists>c. cellContent g c = Some t"
  then obtain c where c: "cellContent g c = Some t" ..
  then have "c \<in> set (eachCell g)"
    by (simp add: set_eachCell cellContent_Some_withinBounds)
  with c show "t \<in> set (tiles g)" by (force simp: tiles_def)
qed

lemma mergedValues_gsum: "mset (mergedValues g) = gsum mval g"
proof -
  have "mset (map tile_value (filter (\<lambda>t. mergedFrom t \<noteq> None)
          (concat (map (\<lambda>c. case f c of None \<Rightarrow> [] | Some t \<Rightarrow> [t]) cs))))
        = sum_list (map (\<lambda>c. mval (f c)) cs)" for f :: "cell \<Rightarrow> tile option" and cs
    by (induction cs) (auto simp: mval_def split: option.splits)
  then show ?thesis unfolding mergedValues_def mergedTiles_def tiles_def gsum_def .
qed

lemma accounts_refl: "accounts [] fr fr"
  by (simp add: accounts_def)

lemma accounts_trans: "accounts vs fr fr' \<Longrightarrow> accounts ws fr' fr'' \<Longrightarrow> accounts (vs @ ws) fr fr''"
  by (auto simp: accounts_def)

lemma visit_accounts:
  assumes "wf_grid (grid_of (self fr))" "unmerged_at (grid_of (self fr)) [c]"
  shows "\<exists>vs. accounts vs fr (visit d c fr)"
proof (cases rule: visit_cases[where fr=fr and c=c and d=d])
  case empty
  then show ?thesis using accounts_refl by (auto simp: visit_empty)
next
  case (merge tile f n nt)
  note v = visit_merge[OF assms(1) merge]
  let ?g = "grid_of (self fr)"
  have wc: "withinBounds ?g c" and wn: "withinBounds ?g n"
    using merge by (auto intro: cellContent_Some_withinBounds)
  have d: "dims ?g" using assms(1) by (rule wf_grid_dims)
  have "n \<noteq> c" using findFarthestPosition_next_ahead[OF merge(2)] by (rule ahead_neq)
  have um: "mergedFrom tile = None" using assms(2) merge(1) by (simp add: unmerged_at_def)
  let ?g1 = "setCell ?g n (Some (merged_tile tile nt n))"
  have g1: "gsum mval ?g1 = gsum mval ?g + {#tile_value tile * 2#}"
    using gsum_setCell[OF d wn, of mval "Some (merged_tile tile nt n)"] merge(3,5)
    by (simp add: mval_def merged_tile_def)
  have "cellContent ?g1 c = Some tile"
    using d wn \<open>n \<noteq> c\<close> merge(1) by (simp add: cellContent_setCell)
  then have "gsum mval (setCell ?g1 c None) = gsum mval ?g1"
    using gsum_setCell[of ?g1 c mval None] d wc um by (simp add: dims_setCell mval_def)
  then have "accounts [tile_value tile * 2] fr (visit d c fr)"
    using g1 by (simp add: accounts_def v)
  then show ?thesis ..
next
  case (stay tile n)
  then show ?thesis using assms accounts_refl by (auto simp: visit_slide_stay)
next
  case (slide tile f n)
  note v = visit_slide[OF assms(1) slide(1,2,4)]
  let ?g = "grid_of (self fr)"
  have wc: "withinBounds ?g c"
    using slide by (auto intro: cellContent_Some_withinBounds)
  then have wf': "withinBounds ?g f"
    using slide(2) by (auto intro: farthest_withinBounds)
  have d: "dims ?g" using assms(1) by (rule wf_grid_dims)
  have um: "mergedFrom tile = None" using assms(2) slide(1) by (simp add: unmerged_at_def)
  have fe: "cellContent ?g f = None"
    using findFarthestPosition_props[OF slide(2)] slide(3) by auto
  let ?g1 = "setCell ?g c None"
  have g1: "gsum mval ?g1 = gsum mval ?g"
    using gsum_setCell[OF d wc, of mval None] slide(1) um by (simp add: mval_def)
  have "cellContent ?g1 f = None"
    using d wc fe by (simp add: cellContent_setCell)
  then have "gsum mval (setCell ?g1 f (Some (updatePosition tile f))) = gsum mval ?g1"
    using gsum_setCell[of ?g1 f mval "Some (updatePosition tile f)"] d wf' um
    by (simp add: dims_setCell mval_def updatePosition_def)
  then have "accounts [] fr (visit d c fr)"
    using g1 by (simp add: accounts_def v)
  then show ?thesis ..
qed

lemma sources_okD:
  "sources_ok g \<Longrightarrow> cellContent g c = Some t \<Longrightarrow> mergedFrom t = Some (a, b) \<Longrightarrow>
     mergedFrom a = None \<and> mergedFrom b = None \<and> tile_value a = tile_value b \<and>
     tile_value t = tile_value a + tile_value b"
  unfolding sources_ok_def by blast

lemma sources_okI:
  "(\<And>c t a b. cellContent g c = Some t \<Longrightarrow> mergedFrom t = Some (a, b) \<Longrightarrow>
     mergedFrom a = None \<and> mergedFrom b = None \<and> tile_value a = tile_value b \<and>
     tile_value t = tile_value a + tile_value b) \<Longrightarrow> sources_ok g"
  unfolding sources_ok_def by blast

lemma visit_sources:
  assumes "wf_grid (grid_of (self fr))" "unmerged_at (grid_of (self fr)) (c # rest)"
    and "sources_ok (grid_of (self fr))" "\<forall>c' \<in> set rest. \<not> ahead d c c'"
  shows "unmerged_at (grid_of (self (visit d c fr))) rest \<and>
         sources_ok (grid_of (self (visit d c fr)))"
proof (cases rule: visit_cases[where fr=fr and c=c and d=d])
  case empty
  then show ?thesis using assms by (simp add: visit_empty unmerged_at_def)
next
  case (merge tile f n nt)
  note v = visit_merge[OF assms(1) merge]
  let ?g = "grid_of (self fr)"
  have wc: "withinBounds ?g c" and wn: "withinBounds ?g n"
    using merge by (auto intro: cellContent_Some_withinBounds)
  have d: "dims ?g" using assms(1) by (rule wf_grid_dims)
  have ah: "ahead d c n" using findFarthestPosition_next_ahead[OF merge(2)] .
  then have nr: "n \<notin> set rest" using assms(4) by blast
  have um: "mergedFrom tile = None" using assms(2) merge(1) by (simp add: unmerged_at_def)
  have cc: "cellContent (grid_of (self (visit d c fr))) c' =
        (if c' = c then None else if c' = n then Some (merged_tile tile nt n)
         else cellContent ?g c')" for c'
    using d wc wn by (simp add: v(1) cellContent_setCell dims_setCell)
  have "unmerged_at (grid_of (self (visit d c fr))) rest"
    using assms(2) nr by (auto simp: unmerged_at_def cc)
  moreover have "sources_ok (grid_of (self (visit d c fr)))"
  proof (rule sources_okI)
    fix c' t a b
    assume 1: "cellContent (grid_of (self (visit d c fr))) c' = Some t"
      and 2: "mergedFrom t = Some (a, b)"
    show "mergedFrom a = None \<and> mergedFrom b = None \<and> tile_value a = tile_value b \<and>
        tile_value t = tile_value a + tile_value b"
    proof (cases "c' = n")
      case True
      then have "t = merged_tile tile nt n" using 1 ah by (auto simp: cc dest: ahead_neq)
      then have "a = updatePosition tile n" "b = nt" "tile_value t = tile_value tile * 2"
        using 2 by (simp_all add: merged_tile_def)
      then show ?thesis using um merge(4,5) by (simp add: updatePosition_def)
    next
      case False
      then have "cellContent ?g c' = Some t" using 1 by (simp add: cc split: if_splits)
      from sources_okD[OF assms(3) this 2] show ?thesis .
    qed
  qed
  ultimately show ?thesis ..
next
  case (stay tile n)
  then show ?thesis using assms by (simp add: visit_slide_stay unmerged_at_def)
next
  case (slide tile f n)
  note v = visit_slide[OF assms(1) slide(1,2,4)]
  let ?g = "grid_of (self fr)"
  have wc: "withinBounds ?g c"
    using slide by (auto intro: cellContent_Some_withinBounds)
  then have wf': "withinBounds ?g f"
    using slide(2) by (auto intro: farthest_withinBounds)
  have d: "dims ?g" using assms(1) by (rule wf_grid_dims)
  have um: "mergedFrom tile = None" using assms(2) slide(1) by (simp add: unmerged_at_def)
  have cc: "cellContent (grid_of (self (visit d c fr))) c' =
        (if c' = f then Some (updatePosition tile f) else if c' = c then None
         else cellContent ?g c')" for c'
    using d wc wf' by (simp add: v cellContent_setCell dims_setCell)
  have "unmerged_at (grid_of (self (visit d c fr))) rest"
    using assms(2) um by (auto simp: unmerged_at_def cc updatePosition_def)
  moreover have "sources_ok (grid_of (self (visit d c fr)))"
  proof (rule sources_okI)
    fix c' t a b
    assume 1: "cellContent (grid_of (self (visit d c fr))) c' = Some t"
      and 2: "mergedFrom t = Some (a, b)"
    show "mergedFrom a = None \<and> mergedFrom b = None \<and> tile_value a = tile_value b \<and>
        tile_value t = tile_value a + tile_value b"
    proof (cases "c' = f")
      case True
      then have "t = updatePosition tile f" using 1 by (simp add: cc)
      then have "mergedFrom t = None" using um by (simp add: updatePosition_def)
      then show ?thesis using 2 by simp
    next
      case False
      then have "cellContent ?g c' = Some t" using 1 by (simp add: cc split: if_splits)
      from sources_okD[OF assms(3) this 2] show ?thesis .
    qed
  qed
  ultimately show ?thesis ..
qed

lemma fold_visit_accounts:
  assumes "wf_grid (grid_of (self fr))" "unmerged_at (grid_of (self fr)) cs"
    and "sources_ok (grid_of (self fr))" "sorted_wrt (\<lambda>c c'. \<not> ahead d c c') cs"
  shows "\<exists>vs. accounts vs fr (fold (visit d) cs fr) \<and>
              sources_ok (grid_of (self (fold (visit d) cs fr)))"
  using assms
proof (induction cs arbitrary: fr)
  case Nil
  then show ?case using accounts_refl by auto
next
  case (Cons c cs)
  have w: "wf_grid (grid_of (self (visit d c fr)))" using visit_wf[OF Cons.prems(1)] by simp
  have u: "unmerged_at (grid_of (self fr)) [c]"
    using Cons.prems(2) by (simp add: unmerged_at_def)
  from visit_accounts[OF Cons.prems(1) u] obtain vs where
    vs: "accounts vs fr (visit d c fr)" ..
  have "\<forall>c' \<in> set cs. \<not> ahead d c c'" and sorted: "sorted_wrt (\<lambda>c c'. \<not> ahead d c c') cs"
    using Cons.prems(4) by auto
  from visit_sources[OF Cons.prems(1,2,3) this(1)]
  have "unmerged_at (grid_of (self (visit d c fr))) cs"
    "sources_ok (grid_of (self (visit d c fr)))" by auto
  from Cons.IH[OF w this sorted] obtain ws where
    ws: "accounts ws (visit d c fr) (fold (visit d) cs (visit d c fr))"
    "sources_ok (grid_of (self (fold (visit d) cs (visit d c fr))))" by blast
  from accounts_trans[OF vs ws(1)] ws(2) show ?case by auto
qed

subsection \<open>The order of the traversal\<close>

lemma sorted_wrt_product:
  assumes "sorted_wrt (\<lambda>x x'. \<forall>y y'. R (x, y) (x', y')) xs"
    and "\<And>x. sorted_wrt (\<lambda>y y'. R (x, y) (x, y')) ys"
  shows "sorted_wrt R (List.product xs ys)"
  using assms(1)
proof (induction xs)
  case Nil then show ?case by simp
next
  case (Cons x xs)
  have "sorted_wrt R (map (Pair x) ys)"
    using assms(2)[of x] by (simp add: sorted_wrt_map)
  then show ?case using Cons by (auto simp: sorted_wrt_append)
qed

lemma sorted_wrt_less_ints: "sorted_wrt (<) (map int [0..<n])"
  by (simp add: sorted_wrt_map)

lemma sorted_wrt_neq_ints: "sorted_wrt (\<lambda>x y. x \<noteq> y) (map int [0..<n])"
  by (rule sorted_wrt_mono_rel[OF _ sorted_wrt_less_ints]) auto

lemma sorted_wrt_greater_rev_ints: "sorted_wrt (>) (rev (map int [0..<n]))"
  by (simp add: sorted_wrt_rev sorted_wrt_less_ints)

lemma traversal_order_sorted: "sorted_wrt (\<lambda>c c'. \<not> ahead d c c') (traversal_order d n)"
proof (cases d)
  case DirUp
  show ?thesis unfolding traversal_order_def DirUp
    apply (simp add: buildTraversals_def Let_def)
    apply (rule sorted_wrt_product)
     apply (rule sorted_wrt_mono_rel[OF _ sorted_wrt_neq_ints], simp)
    apply (rule sorted_wrt_mono_rel[OF _ sorted_wrt_less_ints], simp)
    done
next
  case DirRight
  show ?thesis unfolding traversal_order_def DirRight
    apply (simp add: buildTraversals_def Let_def)
    apply (rule sorted_wrt_product)
     apply (rule sorted_wrt_mono_rel[OF _ sorted_wrt_greater_rev_ints], simp)
    apply (rule sorted_wrt_mono_rel[OF _ sorted_wrt_less_ints], simp)
    done
next
  case DirDown
  show ?thesis unfolding traversal_order_def DirDown
    apply (simp add: buildTraversals_def Let_def)
    apply (rule sorted_wrt_product)
     apply (rule sorted_wrt_mono_rel[OF _ sorted_wrt_neq_ints], simp)
    apply (rule sorted_wrt_mono_rel[OF _ sorted_wrt_greater_rev_ints], simp)
    done
next
  case DirLeft
  show ?thesis unfolding traversal_order_def DirLeft
    apply (simp add: buildTraversals_def Let_def)
    apply (rule sorted_wrt_product)
     apply (rule sorted_wrt_mono_rel[OF _ sorted_wrt_less_ints], simp)
    apply (rule sorted_wrt_mono_rel[OF _ sorted_wrt_less_ints], simp)
    done
qed

lemma prepareTiles_unmerged: "dims g \<Longrightarrow> unmerged_at (prepareTiles g) cs"
  by (auto simp: unmerged_at_def cellContent_prepareTiles savePosition_def set_mergedFrom_def)

lemma prepareTiles_sources_ok: "dims g \<Longrightarrow> sources_ok (prepareTiles g)"
  by (rule sources_okI)
     (auto simp: cellContent_prepareTiles savePosition_def set_mergedFrom_def)

lemma prepareTiles_mval: "dims g \<Longrightarrow> gsum mval (prepareTiles g) = {#}"
proof -
  assume "dims g"
  then have "mval (cellContent (prepareTiles g) c) = {#}" for c
    by (cases "cellContent g c")
       (simp_all add: cellContent_prepareTiles mval_def savePosition_def set_mergedFrom_def)
  then show ?thesis by (simp add: gsum_def)
qed

lemma traverse_accounts:
  assumes "wf_game s"
  shows "\<exists>vs. score (self (traverse d s)) = score s + sum_list vs \<and>
      emitted (self (traverse d s)) = emitted s @ concat (map merge_events vs) \<and>
      won (self (traverse d s)) = (won s \<or> 2048 \<in> set vs) \<and>
      maxMergeValue (traverse d s) = fold max vs 0 \<and>
      mset (mergedValues (grid_of (self (traverse d s)))) = mset vs \<and>
      over (self (traverse d s)) = over s \<and>
      keepPlaying (self (traverse d s)) = keepPlaying s \<and>
      storage (self (traverse d s)) = storage s \<and>
      sources_ok (grid_of (self (traverse d s)))"
proof -
  let ?fr = "\<lparr>self = s\<lparr>grid_of := prepareTiles (grid_of s)\<rparr>, moved = False, maxMergeValue = 0\<rparr>"
  have d: "dims (grid_of s)" using assms by (simp add: wf_game_def wf_grid_dims)
  have w: "wf_grid (grid_of (self ?fr))"
    using assms by (simp add: wf_game_def wf_grid_prepareTiles)
  have u: "unmerged_at (grid_of (self ?fr)) (traversal_order d (size_of s))"
    using d by (simp add: prepareTiles_unmerged)
  have k: "sources_ok (grid_of (self ?fr))" using d by (simp add: prepareTiles_sources_ok)
  have so: "sorted_wrt (\<lambda>c c'. \<not> ahead d c c') (traversal_order d (size_of s))"
    by (rule traversal_order_sorted)
  from fold_visit_accounts[OF w u k so] obtain vs where
    "accounts vs ?fr (traverse d s)" "sources_ok (grid_of (self (traverse d s)))"
    unfolding traverse_fold by blast
  then show ?thesis using d
    by (intro exI[of _ vs]) (simp add: accounts_def mergedValues_gsum prepareTiles_mval)
qed

subsection \<open>The whole move\<close>

lemma getTileSum_cong: "grid_of s = grid_of s' \<Longrightarrow> getTileSum s = getTileSum s'"
  by (simp add: getTileSum_def)

lemma addRandomTile_fields:
  "score (addRandomTile r1 r2 s) = score s" "won (addRandomTile r1 r2 s) = won s"
  "over (addRandomTile r1 r2 s) = over s" "emitted (addRandomTile r1 r2 s) = emitted s"
  "keepPlaying (addRandomTile r1 r2 s) = keepPlaying s"
  by (simp_all add: addRandomTile_def Let_def)

lemma move_moved_fields:
  fixes r1 r2 :: real and d :: direction and s :: game
  assumes "\<not> isGameTerminated s" "moved (traverse d s)"
  defines "s1 \<equiv> addRandomTile r1 r2 (self (traverse d s))"
  shows "score (move r1 r2 d s) = score (self (traverse d s))"
    and "won (move r1 r2 d s) = won (self (traverse d s))"
    and "over (move r1 r2 d s) = (over (self (traverse d s)) \<or> \<not> movesAvailable s1)"
    and "emitted (move r1 r2 d s) =
           emitted (self (traverse d s)) @ (if \<not> movesAvailable s1 then [GameOver] else []) @
           [GameMove d] @
           (if maxMergeValue (traverse d s) > 0 then [GameMerge (maxMergeValue (traverse d s))]
            else []) @
           [GameProgression (fst (getTileSum (move r1 r2 d s))) (snd (getTileSum (move r1 r2 d s)))
              (score (move r1 r2 d s))]"
proof -
  have g: "getTileSum (move r1 r2 d s) = getTileSum s1"
    using move_moved[OF assms(1,2)] unfolding s1_def by (rule getTileSum_cong)
  show "score (move r1 r2 d s) = score (self (traverse d s))"
    "won (move r1 r2 d s) = won (self (traverse d s))"
    "over (move r1 r2 d s) = (over (self (traverse d s)) \<or> \<not> movesAvailable s1)"
    using assms(1,2)
    by (simp_all add: move_def Let_def actuate_def emitEvent_def addRandomTile_fields s1_def)
  then show "emitted (move r1 r2 d s) =
           emitted (self (traverse d s)) @ (if \<not> movesAvailable s1 then [GameOver] else []) @
           [GameMove d] @
           (if maxMergeValue (traverse d s) > 0 then [GameMerge (maxMergeValue (traverse d s))]
            else []) @
           [GameProgression (fst (getTileSum (move r1 r2 d s))) (snd (getTileSum (move r1 r2 d s)))
              (score (move r1 r2 d s))]"
    unfolding g using assms(1,2)
    by (simp add: move_def Let_def actuate_def emitEvent_def addRandomTile_fields s1_def
        getTileSum_def)
qed

lemma addRandomTile_merged:
  assumes "dims (grid_of s)" "cellsAvailable (grid_of s)" "0 \<le> r2" "r2 < 1"
  shows "mset (mergedValues (grid_of (addRandomTile r1 r2 s))) = mset (mergedValues (grid_of s))"
    and "sources_ok (grid_of s) \<Longrightarrow> sources_ok (grid_of (addRandomTile r1 r2 s))"
proof -
  from addRandomTile_grid[OF assms, of r1] obtain c v where
    c: "withinBounds (grid_of s) c" "cellContent (grid_of s) c = None"
    and e: "addRandomTile r1 r2 s = s\<lparr>grid_of := setCell (grid_of s) c (Some (new_Tile c v))\<rparr>"
    by blast
  from gsum_setCell[OF assms(1) c(1), of mval "Some (new_Tile c v)"]
  show "mset (mergedValues (grid_of (addRandomTile r1 r2 s))) = mset (mergedValues (grid_of s))"
    by (simp add: e mergedValues_gsum c(2) mval_def new_Tile_def)
  assume k: "sources_ok (grid_of s)"
  show "sources_ok (grid_of (addRandomTile r1 r2 s))"
  proof (rule sources_okI)
    fix c' t a b
    assume 1: "cellContent (grid_of (addRandomTile r1 r2 s)) c' = Some t"
      and 2: "mergedFrom t = Some (a, b)"
    have "c' \<noteq> c" using 1 2 assms(1) c(1) by (auto simp: e cellContent_setCell new_Tile_def)
    then have "cellContent (grid_of s) c' = Some t"
      using 1 assms(1) c(1) by (simp add: e cellContent_setCell)
    from sources_okD[OF k this 2]
    show "mergedFrom a = None \<and> mergedFrom b = None \<and> tile_value a = tile_value b \<and>
        tile_value t = tile_value a + tile_value b" .
  qed
qed

lemma move_accounts:
  assumes "wf_game s" "\<not> isGameTerminated s" "0 \<le> r2" "r2 < 1"
  shows "\<exists>vs. mset vs = mset (mergedValues (grid_of (move r1 r2 d s))) \<and>
      sources_ok (grid_of (move r1 r2 d s)) \<and>
      score (move r1 r2 d s) = score s + sum_list vs \<and>
      won (move r1 r2 d s) = (won s \<or> 2048 \<in> set vs) \<and>
      emitted (move r1 r2 d s) = emitted s @
        (if moved (traverse d s) then
           concat (map merge_events vs) @
           (if over (move r1 r2 d s) then [GameOver] else []) @
           [GameMove d] @
           (if Max (set (0 # vs)) > 0 then [GameMerge (Max (set (0 # vs)))] else []) @
           [GameProgression (fst (getTileSum (move r1 r2 d s))) (snd (getTileSum (move r1 r2 d s)))
              (score (move r1 r2 d s))]
         else [])"
proof (cases "moved (traverse d s)")
  case False
  have d: "dims (grid_of s)" using assms(1) by (simp add: wf_game_def wf_grid_dims)
  have e: "move r1 r2 d s = s\<lparr>grid_of := prepareTiles (grid_of s)\<rparr>"
    using move_not_moved[OF assms(1), of d] False assms(2) by simp
  have "mset (mergedValues (prepareTiles (grid_of s))) = {#}"
    using d by (simp add: mergedValues_gsum prepareTiles_mval)
  then show ?thesis using False d
    by (intro exI[of _ "[]"]) (simp add: e prepareTiles_sources_ok)
next
  case True
  from traverse_accounts[OF assms(1), of d] obtain vs where vs:
    "score (self (traverse d s)) = score s + sum_list vs"
    "emitted (self (traverse d s)) = emitted s @ concat (map merge_events vs)"
    "won (self (traverse d s)) = (won s \<or> 2048 \<in> set vs)"
    "maxMergeValue (traverse d s) = fold max vs 0"
    "mset (mergedValues (grid_of (self (traverse d s)))) = mset vs"
    "over (self (traverse d s)) = over s"
    "sources_ok (grid_of (self (traverse d s)))" by blast
  have a: "cellsAvailable (grid_of (self (traverse d s)))"
    using assms(1) True by (rule traverse_cellsAvailable)
  have dm: "dims (grid_of (self (traverse d s)))"
    using traverse_wf(1)[OF assms(1)] by (rule wf_grid_dims)
  note ar = addRandomTile_merged[OF dm a assms(3,4), of r1]
  note mf = move_moved_fields[OF assms(2) True, of r1 r2]
  have mx: "fold max vs 0 = Max (set (0 # vs))" by (simp only: Max.set_eq_fold)
  have ov: "\<not> over s" using assms(2) by (simp add: isGameTerminated_def)
  have "emitted (move r1 r2 d s) = emitted s @
           concat (map merge_events vs) @
           (if over (move r1 r2 d s) then [GameOver] else []) @
           [GameMove d] @
           (if Max (set (0 # vs)) > 0 then [GameMerge (Max (set (0 # vs)))] else []) @
           [GameProgression (fst (getTileSum (move r1 r2 d s))) (snd (getTileSum (move r1 r2 d s)))
              (score (move r1 r2 d s))]"
    unfolding mf(4) mf(3) vs(2) vs(4) vs(6) mx using ov by simp
  then show ?thesis using True ar vs(7)
    by (intro exI[of _ vs]) (simp add: move_moved[OF assms(2) True] mf(1,2) vs(1,3,5))
qed

text \<open>
  Claim C7: a move in which no tile changes position (the game is terminated, or the
  traversal leaves \<open>moved\<close> false) leaves the score, the contents of the grid (the
  position and value of the tile of every cell, and so the number of tiles), the
  persisted state and the flags as they were, and emits no event. The tiles only
  have their previous position saved and their merge-source pair cleared by
  \<open>prepareTiles\<close>.
\<close>

theorem move_noop:
  assumes "wf_game s" "isGameTerminated s \<or> \<not> moved (traverse d s)"
  shows "score (move r1 r2 d s) = score s \<and>
         serialize_grid (grid_of (move r1 r2 d s)) = serialize_grid (grid_of s) \<and>
         tileCount (grid_of (move r1 r2 d s)) = tileCount (grid_of s) \<and>
         storage (move r1 r2 d s) = storage s \<and>
         serialize (move r1 r2 d s) = serialize s \<and>
         emitted (move r1 r2 d s) = emitted s \<and>
         over (move r1 r2 d s) = over s \<and> won (move r1 r2 d s) = won s \<and>
         keepPlaying (move r1 r2 d s) = keepPlaying s"
proof -
  have d: "dims (grid_of s)" using assms(1) by (simp add: wf_game_def wf_grid_dims)
  show ?thesis
    using d by (simp add: move_not_moved[OF assms] serialize_grid_prepareTiles
        tileCount_prepareTiles serialize_def)
qed

theorem move_noop_witness:
  "wf_game game_packed \<and>
   (isGameTerminated game_packed \<or> \<not> moved (traverse DirLeft game_packed)) \<and>
   score (move 0.5 0.5 DirLeft game_packed) = score game_packed \<and>
   serialize_grid (grid_of (move 0.5 0.5 DirLeft game_packed)) = serialize_grid (grid_of game_packed) \<and>
   storage (move 0.5 0.5 DirLeft game_packed) = storage game_packed \<and>
   emitted (move 0.5 0.5 DirLeft game_packed) = emitted game_packed"
proof -
  have h1: "wf_game game_packed" by code_simp
  have h2: "isGameTerminated game_packed \<or> \<not> moved (traverse DirLeft game_packed)" by code_simp
  show ?thesis using h1 h2 move_noop[OF h1 h2, where ?r1.0="0.5" and ?r2.0="0.5"] by simp
qed

text \<open>
  Claim C10: when a tile changed position in a move, the grid has an empty cell at
  the moment \<open>addRandomTile\<close> runs, and \<open>addRandomTile\<close> adds exactly one tile; the grid
  of the result of \<open>move\<close> is the grid after that insertion.
\<close>

theorem move_spawn_cell_available:
  assumes "wf_game s" "\<not> isGameTerminated s" "moved (traverse d s)" "0 \<le> r2" "r2 < 1"
  shows "cellsAvailable (grid_of (self (traverse d s))) \<and>
         tileCount (grid_of (addRandomTile r1 r2 (self (traverse d s)))) =
           tileCount (grid_of (self (traverse d s))) + 1 \<and>
         grid_of (move r1 r2 d s) = grid_of (addRandomTile r1 r2 (self (traverse d s)))"
proof -
  have a: "cellsAvailable (grid_of (self (traverse d s)))"
    using assms(1,3) by (rule traverse_cellsAvailable)
  have "dims (grid_of (self (traverse d s)))"
    using traverse_wf(1)[OF assms(1)] by (rule wf_grid_dims)
  from addRandomTile_tileCount[OF this a assms(4,5)] a move_moved[OF assms(2,3)]
  show ?thesis by simp
qed

theorem move_spawn_cell_available_witness:
  "wf_game game_row \<and> \<not> isGameTerminated game_row \<and> moved (traverse DirRight game_row) \<and>
   (0::real) \<le> 0.5 \<and> (0.5::real) < 1 \<and>
   cellsAvailable (grid_of (self (traverse DirRight game_row))) \<and>
   tileCount (grid_of (addRandomTile 0.5 0.5 (self (traverse DirRight game_row)))) =
     tileCount (grid_of (self (traverse DirRight game_row))) + 1"
proof -
  have h1: "wf_game game_row" by code_simp
  have h2: "\<not> isGameTerminated game_row" by code_simp
  have h3: "moved (traverse DirRight game_row)" by code_simp
  have h4: "(0::real) \<le> 0.5" and h5: "(0.5::real) < 1" by simp_all
  show ?thesis
    using h1 h2 h3 move_spawn_cell_available[OF h1 h2 h3 h4 h5, where ?r1.0="0.5"] by simp
qed

text \<open>
  Claim C9: every merge of a move joins two tiles of equal value into a tile whose
  value is their sum, twice the value of each, and the score grows by the value of
  every merged tile. After \<open>prepareTiles\<close> the tiles with a merge-source pair are the
  tiles the merges of this move produced, and none of them is removed again: the
  move adds the sum of their values to the score.
\<close>

theorem merges_double_and_score:
  assumes "wf_game s" "\<not> isGameTerminated s" "0 \<le> r2" "r2 < 1"
  shows "(\<forall>t \<in> set (mergedTiles (grid_of (move r1 r2 d s))).
            \<exists>a b. mergedFrom t = Some (a, b) \<and> tile_value a = tile_value b \<and>
                  tile_value t = tile_value a + tile_value b \<and> tile_value t = 2 * tile_value a) \<and>
         score (move r1 r2 d s) =
           score s + sum_list (mergedValues (grid_of (move r1 r2 d s)))"
proof -
  from move_accounts[OF assms, of r1 d] obtain vs where
    vs: "mset vs = mset (mergedValues (grid_of (move r1 r2 d s)))"
      "sources_ok (grid_of (move r1 r2 d s))"
      "score (move r1 r2 d s) = score s + sum_list vs" by blast
  have "sum_list vs = sum_list (mergedValues (grid_of (move r1 r2 d s)))"
    using vs(1) by (metis sum_mset_sum_list)
  moreover have "\<exists>a b. mergedFrom t = Some (a, b) \<and> tile_value a = tile_value b \<and>
      tile_value t = tile_value a + tile_value b \<and> tile_value t = 2 * tile_value a"
    if "t \<in> set (mergedTiles (grid_of (move r1 r2 d s)))" for t
  proof -
    from that obtain c a b where "cellContent (grid_of (move r1 r2 d s)) c = Some t"
      "mergedFrom t = Some (a, b)"
      by (auto simp: mergedTiles_def set_tiles)
    from sources_okD[OF vs(2) this] this(2) show ?thesis by simp
  qed
  ultimately show ?thesis using vs(3) by simp
qed

theorem merges_double_and_score_witness:
  "wf_game game_row \<and> \<not> isGameTerminated game_row \<and> (0::real) \<le> 0.5 \<and> (0.5::real) < 1 \<and>
   merged_4 \<in> set (mergedTiles (grid_of (move 0.5 0.5 DirRight game_row))) \<and>
   (\<exists>a b. mergedFrom merged_4 = Some (a, b) \<and> tile_value a = tile_value b \<and>
         tile_value merged_4 = tile_value a + tile_value b \<and>
         tile_value merged_4 = 2 * tile_value a) \<and>
   score (move 0.5 0.5 DirRight game_row) =
     score game_row + sum_list (mergedValues (grid_of (move 0.5 0.5 DirRight game_row)))"
proof -
  have h1: "wf_game game_row" by code_simp
  have h2: "\<not> isGameTerminated game_row" by code_simp
  have h3: "(0::real) \<le> 0.5" and h4: "(0.5::real) < 1" by simp_all
  have h5: "merged_4 \<in> set (mergedTiles (grid_of (move 0.5 0.5 DirRight game_row)))"
    by code_simp
  show ?thesis
    using h1 h2 h5 merges_double_and_score[OF h1 h2 h3 h4, where ?r1.0="0.5" and d=DirRight]
    by simp
qed

text \<open>
  Claim C6: within one move no tile produced by a merge takes part in a second
  merge: both sources of every merged tile are tiles without a merge-source pair,
  that is, tiles no merge of this move produced. The row \<open>2 2 4\<close> moved towards the 4
  becomes \<open>4 4\<close>, not \<open>8\<close>.
\<close>

theorem merged_tile_not_merged_again:
  assumes "wf_game s" "\<not> isGameTerminated s" "0 \<le> r2" "r2 < 1"
  shows "(\<forall>t \<in> set (mergedTiles (grid_of (move r1 r2 d s))).
            \<exists>a b. mergedFrom t = Some (a, b) \<and> mergedFrom a = None \<and> mergedFrom b = None) \<and>
         rows_of_grid (grid_of (self (traverse DirRight game_row))) =
           [[0, 0, 4, 4], [0, 0, 0, 0], [0, 0, 0, 0], [0, 0, 0, 64]]"
proof -
  from move_accounts[OF assms, of r1 d] have
    k: "sources_ok (grid_of (move r1 r2 d s))" by blast
  have "\<exists>a b. mergedFrom t = Some (a, b) \<and> mergedFrom a = None \<and> mergedFrom b = None"
    if "t \<in> set (mergedTiles (grid_of (move r1 r2 d s)))" for t
  proof -
    from that obtain c a b where "cellContent (grid_of (move r1 r2 d s)) c = Some t"
      "mergedFrom t = Some (a, b)"
      by (auto simp: mergedTiles_def set_tiles)
    from sources_okD[OF k this] this(2) show ?thesis by simp
  qed
  moreover have "rows_of_grid (grid_of (self (traverse DirRight game_row))) =
           [[0, 0, 4, 4], [0, 0, 0, 0], [0, 0, 0, 0], [0, 0, 0, 64]]"
    by code_simp
  ultimately show ?thesis by simp
qed

theorem merged_tile_not_merged_again_witness:
  "wf_game game_row \<and> \<not> isGameTerminated game_row \<and> (0::real) \<le> 0.5 \<and> (0.5::real) < 1 \<and>
   merged_4 \<in> set (mergedTiles (grid_of (move 0.5 0.5 DirRight game_row))) \<and>
   (\<exists>a b. mergedFrom merged_4 = Some (a, b) \<and> mergedFrom a = None \<and> mergedFrom b = None)"
proof -
  have h1: "wf_game game_row" by code_simp
  have h2: "\<not> isGameTerminated game_row" by code_simp
  have h3: "(0::real) \<le> 0.5" and h4: "(0.5::real) < 1" by simp_all
  have h5: "merged_4 \<in> set (mergedTiles (grid_of (move 0.5 0.5 DirRight game_row)))"
    by code_simp
  show ?thesis
    using h1 h2 h5 merged_tile_not_merged_again[OF h1 h2 h3 h4, where ?r1.0="0.5" and d=DirRight]
    by simp
qed

lemma count_merge_events_won:
  "count_list (concat (map merge_events vs)) GameWon = count_list vs 2048"
  by (induction vs) (auto simp: merge_events_def)

lemma count_list_mset_eq: "mset xs = mset ys \<Longrightarrow> count_list xs x = count_list ys x"
  by (metis count_mset)

text \<open>
  Claim C3, as stated: after the game has been won, a later merge that produces 2048
  emits no other win event. In a game already won and continued with \<open>keepPlaying\<close>,
  merging two tiles of 1024 emits the win event again.
\<close>

theorem won_event_repeated_after_keepPlaying:
  "won game_won_continue \<and> keepPlaying game_won_continue \<and>
   emitted (move 0.5 0.5 DirLeft game_won_continue) =
     [GameMilestone 2048, GameWon, GameMove DirLeft, GameMerge 2048,
      GameProgression 4130 2048 2048]"
  by code_simp

text \<open>
  Claim C3, amended: every merge that produces exactly 2048 sets the won flag and
  emits a win event, whether or not the game was won before. A move that is accepted
  emits as many win events as it merged tiles of value 2048, and the game is won
  after it when it was won before or the move merged such a tile. While the game is
  won and \<open>keepPlaying\<close> is not set, \<open>move\<close> returns the game as it is.
\<close>

theorem won_on_every_2048_merge:
  assumes "wf_game s" "\<not> isGameTerminated s" "0 \<le> r2" "r2 < 1"
  shows "won (move r1 r2 d s) =
           (won s \<or> 2048 \<in> set (mergedValues (grid_of (move r1 r2 d s)))) \<and>
         count_list (drop (length (emitted s)) (emitted (move r1 r2 d s))) GameWon =
           count_list (mergedValues (grid_of (move r1 r2 d s))) 2048 \<and>
         (won t \<and> \<not> keepPlaying t \<longrightarrow> move r1 r2 d t = t)"
proof -
  from move_accounts[OF assms, of r1 d] obtain vs where
    vs: "mset vs = mset (mergedValues (grid_of (move r1 r2 d s)))"
      "won (move r1 r2 d s) = (won s \<or> 2048 \<in> set vs)"
      "emitted (move r1 r2 d s) = emitted s @
        (if moved (traverse d s) then
           concat (map merge_events vs) @
           (if over (move r1 r2 d s) then [GameOver] else []) @
           [GameMove d] @
           (if Max (set (0 # vs)) > 0 then [GameMerge (Max (set (0 # vs)))] else []) @
           [GameProgression (fst (getTileSum (move r1 r2 d s))) (snd (getTileSum (move r1 r2 d s)))
              (score (move r1 r2 d s))]
         else [])" by blast
  have s: "set vs = set (mergedValues (grid_of (move r1 r2 d s)))"
    using vs(1) by (rule mset_eq_setD)
  have c: "count_list vs 2048 = count_list (mergedValues (grid_of (move r1 r2 d s))) 2048"
    using vs(1) by (rule count_list_mset_eq)
  have nm: "vs = []" if "\<not> moved (traverse d s)"
  proof -
    have "move r1 r2 d s = s\<lparr>grid_of := prepareTiles (grid_of s)\<rparr>"
      using move_not_moved[OF assms(1), of d] that assms(2) by simp
    moreover have "dims (grid_of s)" using assms(1) by (simp add: wf_game_def wf_grid_dims)
    ultimately have "mset vs = {#}"
      using vs(1) by (simp add: mergedValues_gsum prepareTiles_mval)
    then show ?thesis by simp
  qed
  have "count_list (drop (length (emitted s)) (emitted (move r1 r2 d s))) GameWon =
      count_list vs 2048"
    using nm by (simp add: vs(3) count_merge_events_won)
  moreover have "won t \<and> \<not> keepPlaying t \<longrightarrow> move r1 r2 d t = t"
    by (simp add: move_def isGameTerminated_def)
  ultimately show ?thesis using vs(2) s c by simp
qed

theorem won_on_every_2048_merge_witness:
  "wf_game game_won_continue \<and> \<not> isGameTerminated game_won_continue \<and>
   (0::real) \<le> 0.5 \<and> (0.5::real) < 1 \<and>
   won (move 0.5 0.5 DirLeft game_won_continue) =
     (won game_won_continue \<or>
      2048 \<in> set (mergedValues (grid_of (move 0.5 0.5 DirLeft game_won_continue)))) \<and>
   count_list (drop (length (emitted game_won_continue))
      (emitted (move 0.5 0.5 DirLeft game_won_continue))) GameWon =
     count_list (mergedValues (grid_of (move 0.5 0.5 DirLeft game_won_continue))) 2048 \<and>
   won game_won_stopped \<and> \<not> keepPlaying game_won_stopped \<and>
   move 0.5 0.5 DirLeft game_won_stopped = game_won_stopped"
proof -
  have h1: "wf_game game_won_continue" by code_simp
  have h2: "\<not> isGameTerminated game_won_continue" by code_simp
  have h3: "(0::real) \<le> 0.5" and h4: "(0.5::real) < 1" by simp_all
  have h5: "won game_won_stopped \<and> \<not> keepPlaying game_won_stopped" by code_simp
  show ?thesis
    using h1 h2 h5
      won_on_every_2048_merge[OF h1 h2 h3 h4, where ?r1.0="0.5" and d=DirLeft
        and t=game_won_stopped]
    by simp
qed

text \<open>
  Claim C1, as stated: the move event comes first, then the merge event, then the
  milestone events. In a move that merges two tiles of 32, the milestone event of 64
  is emitted first, during the traversal, before the move event and the merge event.
\<close>

theorem move_emits_milestone_before_move:
  "moved (traverse DirRight game_row) \<and>
   emitted (move 0.5 0.5 DirRight game_row) =
     [GameMilestone 64, GameMove DirRight, GameMerge 64, GameProgression 74 64 68]"
  by code_simp

text \<open>
  Claim C1, amended: a move in which a tile changed position emits, in this order:
  during the traversal, for every merge, a milestone event when the merged value is
  at least 64 and then a win event when it is 2048; after the new tile is spawned,
  the game-over event when the game is lost; the move event with the direction; the
  merge event with the highest merged value of the move, when that value is
  positive; and the progression update of \<open>actuate\<close>. \<open>vs\<close> lists the values of the
  merged tiles of the move in the order of the merges.
\<close>

theorem move_event_order:
  assumes "wf_game s" "\<not> isGameTerminated s" "moved (traverse d s)" "0 \<le> r2" "r2 < 1"
  shows "\<exists>vs. mset vs = mset (mergedValues (grid_of (move r1 r2 d s))) \<and>
      emitted (move r1 r2 d s) = emitted s @
         concat (map merge_events vs) @
         (if over (move r1 r2 d s) then [GameOver] else []) @
         [GameMove d] @
         (if Max (set (0 # vs)) > 0 then [GameMerge (Max (set (0 # vs)))] else []) @
         [GameProgression (fst (getTileSum (move r1 r2 d s))) (snd (getTileSum (move r1 r2 d s)))
            (score (move r1 r2 d s))]"
  using move_accounts[OF assms(1,2,4,5), of r1 d] assms(3) by auto

theorem move_event_order_witness:
  "wf_game game_row \<and> \<not> isGameTerminated game_row \<and> moved (traverse DirRight game_row) \<and>
   (0::real) \<le> 0.5 \<and> (0.5::real) < 1 \<and>
   (\<exists>vs. mset vs = mset (mergedValues (grid_of (move 0.5 0.5 DirRight game_row))) \<and>
      emitted (move 0.5 0.5 DirRight game_row) = emitted game_row @
         concat (map merge_events vs) @
         (if over (move 0.5 0.5 DirRight game_row) then [GameOver] else []) @
         [GameMove DirRight] @
         (if Max (set (0 # vs)) > 0 then [GameMerge (Max (set (0 # vs)))] else []) @
         [GameProgression (fst (getTileSum (move 0.5 0.5 DirRight game_row)))
            (snd (getTileSum (move 0.5 0.5 DirRight game_row)))
            (score (move 0.5 0.5 DirRight game_row))])"
proof -
  have h1: "wf_game game_row" by code_simp
  have h2: "\<not> isGameTerminated game_row" by code_simp
  have h3: "moved (traverse DirRight game_row)" by code_simp
  have h4: "(0::real) \<le> 0.5" and h5: "(0.5::real) < 1" by simp_all
  show ?thesis
    using h1 h2 h3 move_event_order[OF h1 h2 h3 h4 h5, where ?r1.0="0.5"]
    by simp
qed

end
